theory Spec2Isabelle
  imports Main "HOL-Library.AList"
begin

section \<open>Strings and JavaScript values\<close>

text \<open>
  JavaScript strings are modelled as HOL strings, read as ASCII text; the
  Spanish messages of the controller are written without their accents. Only
  the string operations the cache service and the search controller use are
  embedded. Calls of the logger are left out: they change nothing the
  properties below speak of.
\<close>

definition startsWith :: "string \<Rightarrow> string \<Rightarrow> bool" where
  "startsWith s p = (take (length p) s = p)"

text \<open>\<^verbatim>\<open>String.prototype.includes\<close>: \<open>p\<close> occurs somewhere in \<open>s\<close>.\<close>

fun str_includes :: "string \<Rightarrow> string \<Rightarrow> bool" where
  "str_includes [] p = (p = [])"
| "str_includes (c # cs) p = (startsWith (c # cs) p \<or> str_includes cs p)"

text \<open>
  \<^verbatim>\<open>pattern.replace('*', '.*')\<close>: with a string as search value only the first
  occurrence is replaced.
\<close>

fun replaceFirstStar :: "string \<Rightarrow> string" where
  "replaceFirstStar [] = []"
| "replaceFirstStar (c # cs) =
     (if c = CHR ''*'' then ''.*'' @ cs else c # replaceFirstStar cs)"

section \<open>The regular expressions of invalidatePattern\<close>

text \<open>
  \<^verbatim>\<open>new RegExp(src)\<close> is embedded for the fragment the cache patterns of the
  repository fall into: ordinary characters, the dot, and the star quantifier on
  either. Any other metacharacter puts the source outside the fragment
  (\<open>None\<close>); a star with nothing to repeat is a SyntaxError in JavaScript and is
  \<open>None\<close> as well.
\<close>

datatype rx_atom = RxChar char | RxAny

datatype rx_item = Once rx_atom | Star rx_atom

definition rx_special :: "char \<Rightarrow> bool" where
  "rx_special c = (c = CHR 0x5C \<or> c \<in> set ''^$.|?*+()[]{}'')"

definition rx_atom_of :: "char \<Rightarrow> rx_atom option" where
  "rx_atom_of c =
     (if c = CHR ''.'' then Some RxAny
      else if rx_special c then None
      else Some (RxChar c))"

fun rx_compile :: "string \<Rightarrow> rx_item list option" where
  "rx_compile [] = Some []"
| "rx_compile [c] = map_option (\<lambda>a. [Once a]) (rx_atom_of c)"
| "rx_compile (c # d # cs) =
     (case rx_atom_of c of
        None \<Rightarrow> None
      | Some a \<Rightarrow>
          if d = CHR ''*''
          then map_option ((#) (Star a)) (rx_compile cs)
          else map_option ((#) (Once a)) (rx_compile (d # cs)))"

text \<open>The dot matches every character but a line terminator.\<close>

fun rx_atom_ok :: "rx_atom \<Rightarrow> char \<Rightarrow> bool" where
  "rx_atom_ok (RxChar a) c = (a = c)"
| "rx_atom_ok RxAny c = (c \<noteq> CHR 0x0A \<and> c \<noteq> CHR 0x0D)"

text \<open>
  \<open>rx_match_here r s\<close>: some prefix of \<open>s\<close> matches \<open>r\<close>. The backtracking of
  the JavaScript matcher explores every split, so the existence of a match is
  all that \<^verbatim>\<open>test\<close> reports.
\<close>

fun rx_match_here :: "rx_item list \<Rightarrow> string \<Rightarrow> bool" where
  "rx_match_here [] s = True"
| "rx_match_here (Once a # r) [] = False"
| "rx_match_here (Once a # r) (c # cs) = (rx_atom_ok a c \<and> rx_match_here r cs)"
| "rx_match_here (Star a # r) [] = rx_match_here r []"
| "rx_match_here (Star a # r) (c # cs) =
     (rx_match_here r (c # cs) \<or> (rx_atom_ok a c \<and> rx_match_here (Star a # r) cs))"

text \<open>\<^verbatim>\<open>regex.test(key)\<close> without flags: a match may start at any position.\<close>

fun rx_test :: "rx_item list \<Rightarrow> string \<Rightarrow> bool" where
  "rx_test r [] = rx_match_here r []"
| "rx_test r (c # cs) = (rx_match_here r (c # cs) \<or> rx_test r cs)"

section \<open>CacheService\<close>

text \<open>
  The store is the \<^verbatim>\<open>node-cache\<close> instance: its keys in insertion order,
  each with a value and the time (milliseconds) at which it expires. The
  counters are \<^verbatim>\<open>this.stats\<close>.
\<close>

record 'v cache_entry =
  ce_value :: 'v
  ce_expires :: nat

record 'v cache_service =
  store :: "(string \<times> 'v cache_entry) list"
  hits :: nat
  misses :: nat
  sets :: nat

definition emptyCache :: "'v cache_service" where
  "emptyCache = \<lparr>store = [], hits = 0, misses = 0, sets = 0\<rparr>"

text \<open>\<^verbatim>\<open>this.cache.keys()\<close> and \<^verbatim>\<open>this.cache.del(key)\<close> of node-cache.\<close>

definition cacheKeys :: "'v cache_service \<Rightarrow> string list" where
  "cacheKeys c = map fst (store c)"

definition nodeDel :: "string \<Rightarrow> 'v cache_service \<Rightarrow> 'v cache_service" where
  "nodeDel k c = c\<lparr>store := AList.delete k (store c)\<rparr>"

text \<open>
  \<^verbatim>\<open>invalidatePattern(pattern)\<close>: the pattern becomes a regular expression,
  every key the expression tests true on is deleted, and the number of deleted
  keys is returned. \<open>None\<close> when the pattern leaves the embedded fragment.
\<close>

definition invalidatePattern ::
  "string \<Rightarrow> 'v cache_service \<Rightarrow> (nat \<times> 'v cache_service) option" where
  "invalidatePattern pattern c =
     (case rx_compile (replaceFirstStar pattern) of
        None \<Rightarrow> None
      | Some regex \<Rightarrow>
          let matchingKeys = filter (rx_test regex) (cacheKeys c)
          in Some (length matchingKeys, fold nodeDel matchingKeys c))"

text \<open>
  \<^verbatim>\<open>get(key)\<close>. node-cache returns the value of a key that is present and
  not expired (an expiry time of 0 never expires) and deletes an expired key it
  is asked for; the service counts a hit or a miss.
\<close>

definition cacheGet ::
  "nat \<Rightarrow> string \<Rightarrow> 'v cache_service \<Rightarrow> 'v option \<times> 'v cache_service" where
  "cacheGet now key c =
     (case map_of (store c) key of
        None \<Rightarrow> (None, c\<lparr>misses := misses c + 1\<rparr>)
      | Some e \<Rightarrow>
          if ce_expires e \<noteq> 0 \<and> ce_expires e < now
          then (None, (nodeDel key c)\<lparr>misses := misses c + 1\<rparr>)
          else (Some (ce_value e), c\<lparr>hits := hits c + 1\<rparr>))"

text \<open>\<^verbatim>\<open>getCacheTTLForKey(key)\<close>: the default lifetime (seconds) of a namespace.\<close>

definition getCacheTTLForKey :: "string \<Rightarrow> nat" where
  "getCacheTTLForKey key =
     (if startsWith key ''categories:'' then 3600
      else if startsWith key ''services:'' then 1800
      else if startsWith key ''search:'' then 300
      else if startsWith key ''user:'' then 60
      else 600)"

text \<open>
  \<^verbatim>\<open>set(key, value, ttl = null)\<close>. A null or undefined value is \<open>None\<close>; so is
  an absent ttl, and a ttl of 0 is falsy and gives the namespace default too.
\<close>

definition cacheSet ::
  "nat \<Rightarrow> string \<Rightarrow> 'v option \<Rightarrow> nat option \<Rightarrow> 'v cache_service \<Rightarrow> bool \<times> 'v cache_service" where
  "cacheSet now key val ttl c =
     (case val of
        None \<Rightarrow> (False, c)
      | Some v \<Rightarrow>
          let cacheTTL = (case ttl of
                            None \<Rightarrow> getCacheTTLForKey key
                          | Some t \<Rightarrow> if t = 0 then getCacheTTLForKey key else t)
          in (True,
              c\<lparr>store := AList.update key
                            \<lparr>ce_value = v, ce_expires = now + cacheTTL * 1000\<rparr> (store c),
                sets := sets c + 1\<rparr>))"

text \<open>\<^verbatim>\<open>delete(key)\<close>: the number of keys removed, 0 or 1.\<close>

definition cacheDelete :: "string \<Rightarrow> 'v cache_service \<Rightarrow> nat \<times> 'v cache_service" where
  "cacheDelete key c =
     ((if key \<in> set (cacheKeys c) then 1 else 0), nodeDel key c)"

section \<open>Key builder for searches\<close>

datatype jsval = JUndefined | JNull | JStr string | JNum int

definition digitChar :: "nat \<Rightarrow> char" where
  "digitChar d = ''0123456789'' ! d"

fun showNat :: "nat \<Rightarrow> string" where
  "showNat n = (if n < 10 then [digitChar n] else showNat (n div 10) @ [digitChar (n mod 10)])"

declare showNat.simps [simp del]

text \<open>The string a template literal makes of a value (integers in decimal).\<close>

fun toString :: "jsval \<Rightarrow> string" where
  "toString JUndefined = ''undefined''"
| "toString JNull = ''null''"
| "toString (JStr s) = s"
| "toString (JNum n) = (if n < 0 then CHR ''-'' # showNat (nat (- n)) else showNat (nat n))"

definition lowerChar :: "char \<Rightarrow> char" where
  "lowerChar c =
     (case map_of (zip ''ABCDEFGHIJKLMNOPQRSTUVWXYZ'' ''abcdefghijklmnopqrstuvwxyz'') c of
        None \<Rightarrow> c
      | Some l \<Rightarrow> l)"

definition toLowerCase :: "string \<Rightarrow> string" where
  "toLowerCase s = map lowerChar s"

text \<open>The ASCII characters of the class \<^verbatim>\<open>\s\<close>, which are also what trim removes.\<close>

definition isSpace :: "char \<Rightarrow> bool" where
  "isSpace c = (c \<in> set [CHR 0x09, CHR 0x0A, CHR 0x0B, CHR 0x0C, CHR 0x0D, CHR '' ''])"

definition trim :: "string \<Rightarrow> string" where
  "trim s = rev (dropWhile isSpace (rev (dropWhile isSpace s)))"

text \<open>\<^verbatim>\<open>replace(/\s+/g, ' ')\<close>: every maximal run of white space becomes one space.\<close>

function collapseSpaces :: "string \<Rightarrow> string" where
  "collapseSpaces [] = []"
| "collapseSpaces (c # cs) =
     (if isSpace c then CHR '' '' # collapseSpaces (dropWhile isSpace cs)
      else c # collapseSpaces cs)"
  by pat_completeness auto
termination
  by (relation "measure length") (auto simp: length_dropWhile_le less_Suc_eq_le)

definition normalizeQuery :: "string \<Rightarrow> string" where
  "normalizeQuery query = collapseSpaces (trim (toLowerCase query))"

text \<open>
  \<^verbatim>\<open>Array.prototype.sort(compare)\<close> is stable; for a consistent comparator
  every stable sort returns the same array, here the one of insertion sort. An
  element goes before another when \<open>compare\<close> is negative and keeps its place
  when it is zero.
\<close>

fun insertBy :: "('a \<Rightarrow> 'a \<Rightarrow> int) \<Rightarrow> 'a \<Rightarrow> 'a list \<Rightarrow> 'a list" where
  "insertBy cmp x [] = [x]"
| "insertBy cmp x (y # ys) =
     (if cmp x y \<le> 0 then x # y # ys else y # insertBy cmp x ys)"

fun sortBy :: "('a \<Rightarrow> 'a \<Rightarrow> int) \<Rightarrow> 'a list \<Rightarrow> 'a list" where
  "sortBy cmp [] = []"
| "sortBy cmp (x # xs) = insertBy cmp x (sortBy cmp xs)"

text \<open>\<^verbatim>\<open>Array.prototype.join(sep)\<close>.\<close>

fun join :: "string \<Rightarrow> string list \<Rightarrow> string" where
  "join sep [] = []"
| "join sep [x] = x"
| "join sep (x # y # ys) = x @ sep @ join sep (y # ys)"

definition retained :: "string \<times> jsval \<Rightarrow> bool" where
  "retained e = (snd e \<noteq> JNull \<and> snd e \<noteq> JUndefined \<and> snd e \<noteq> JStr [])"

text \<open>
  \<^verbatim>\<open>getSearchKey(query, filters)\<close>. The filters object is the list of its
  entries in insertion order. \<open>localeCompare\<close> stands for
  \<^verbatim>\<open>String.prototype.localeCompare\<close>, which is the host's collation.
\<close>

definition getSearchKeyWith ::
  "(string \<Rightarrow> string \<Rightarrow> int) \<Rightarrow> string \<Rightarrow> (string \<times> jsval) list \<Rightarrow> string" where
  "getSearchKeyWith localeCompare query filters =
     (let normalizedQuery = normalizeQuery query;
          filtersStr =
            join ''|''
              (map (\<lambda>(key, val). key @ '':'' @ toString val)
                (sortBy (\<lambda>a b. localeCompare (fst a) (fst b))
                  (filter retained filters)))
      in ''search:q:'' @ normalizedQuery @
         (if filtersStr \<noteq> [] then '':filters:'' @ filtersStr else []))"

text \<open>
  The collation used where a key is computed on concrete data: comparison by
  character code, which is how the default collation of the host orders
  strings of lower-case ASCII letters such as the filter names the search
  controller passes (category, limit, location, page, price).
\<close>

fun localeCompare :: "string \<Rightarrow> string \<Rightarrow> int" where
  "localeCompare [] [] = 0"
| "localeCompare [] (b # bs) = - 1"
| "localeCompare (a # as) [] = 1"
| "localeCompare (a # as) (b # bs) =
     (if (of_char a :: nat) < of_char b then - 1
      else if (of_char b :: nat) < of_char a then 1
      else localeCompare as bs)"

definition getSearchKey :: "string \<Rightarrow> (string \<times> jsval) list \<Rightarrow> string" where
  "getSearchKey query filters = getSearchKeyWith localeCompare query filters"

section \<open>The HTTP client of the remote service and its retry interceptor\<close>

record remote_result =
  rr_title :: string
  rr_description :: string
  rr_category :: jsval
  rr_price :: "string option"
  rr_location :: "string option"
  rr_rating :: "int option"
  rr_relevance :: "int option"
  rr_contactInfo :: "string option"
  rr_sourceUrl :: "string option"

text \<open>
  A response carries its status and \<^verbatim>\<open>data.results\<close>; an error carries what the
  interceptor reads of it: \<^verbatim>\<open>error.code\<close>, \<^verbatim>\<open>error.response\<close>, whether
  \<^verbatim>\<open>error.config\<close> is there, and the message.
\<close>

record http_response =
  status :: nat
  results :: "remote_result list option"

record axios_error =
  err_code :: "string option"
  err_response :: "http_response option"
  err_hasConfig :: bool
  err_message :: string

datatype attempt = Fulfilled http_response | Rejected axios_error

text \<open>
  The two fields the interceptor keeps on the request configuration:
  \<^verbatim>\<open>_retry\<close> (undefined is falsy, \<open>False\<close>) and \<^verbatim>\<open>_retryCount\<close> (undefined is
  \<open>None\<close>).
\<close>

record request_config =
  cfg_retry :: bool
  cfg_retryCount :: "nat option"

datatype decision = Retry request_config nat | GiveUp

text \<open>
  The rejection handler of \<^verbatim>\<open>apiClient.interceptors.response\<close>. The comparison
  \<^verbatim>\<open>_retryCount < maxRetries\<close> is false when \<^verbatim>\<open>_retryCount\<close> is undefined. A
  retry carries the updated configuration and the delay in milliseconds.
\<close>

definition onRejected :: "nat \<Rightarrow> axios_error \<Rightarrow> request_config \<Rightarrow> decision" where
  "onRejected maxRetries error originalRequest =
     (if (err_code error = Some ''ECONNABORTED'' \<or> err_response error = None) \<and>
         err_hasConfig error \<and>
         \<not> cfg_retry originalRequest \<and>
         (case cfg_retryCount originalRequest of None \<Rightarrow> False | Some n \<Rightarrow> n < maxRetries)
      then
        let retryCount = (case cfg_retryCount originalRequest of None \<Rightarrow> 0 | Some n \<Rightarrow> n) + 1
        in Retry (originalRequest\<lparr>cfg_retry := True, cfg_retryCount := Some retryCount\<rparr>)
                 (2 ^ retryCount * 1000)
      else GiveUp)"

record retry_event =
  re_cause :: axios_error
  re_number :: nat
  re_delay :: nat

text \<open>
  One logical call of \<^verbatim>\<open>apiClient\<close>: \<open>transport k\<close> is what the attempt
  numbered \<open>k\<close> (from 0) meets. A retry calls the client again with the
  configuration the handler has updated, and a rejection of that call passes
  through the handler again. The call returns the final outcome and the
  retries it made, in order.
\<close>

function apiClient ::
  "nat \<Rightarrow> (nat \<Rightarrow> attempt) \<Rightarrow> nat \<Rightarrow> request_config \<Rightarrow> attempt \<times> retry_event list" where
  "apiClient maxRetries transport k config =
     (case transport k of
        Fulfilled response \<Rightarrow> (Fulfilled response, [])
      | Rejected error \<Rightarrow>
          (case onRejected maxRetries error config of
             GiveUp \<Rightarrow> (Rejected error, [])
           | Retry config' delay \<Rightarrow>
               (case apiClient maxRetries transport (Suc k) config' of
                  (outcome, events) \<Rightarrow>
                    (outcome,
                     \<lparr>re_cause = error,
                      re_number = (case cfg_retryCount config' of None \<Rightarrow> 0 | Some n \<Rightarrow> n),
                      re_delay = delay\<rparr> # events))))"
  by pat_completeness auto
termination
  by (relation "measure (\<lambda>(m, t, k, config). if cfg_retry config then 0 else 1)")
     (auto simp: onRejected_def Let_def split: if_splits)

declare apiClient.simps [simp del]

definition attempts :: "attempt \<times> retry_event list \<Rightarrow> nat" where
  "attempts r = Suc (length (snd r))"

definition newRequest :: request_config where
  "newRequest = \<lparr>cfg_retry = False, cfg_retryCount = None\<rparr>"

record python_results =
  py_success :: bool
  py_results :: "remote_result list"

text \<open>
  \<^verbatim>\<open>PythonApiService.customSearch\<close>: a status of 200 gives the results, anything
  else and every rejection is thrown again as an Error (\<open>Inl\<close> its message).
\<close>

definition customSearch :: "nat \<Rightarrow> (nat \<Rightarrow> attempt) \<Rightarrow> string + python_results" where
  "customSearch maxRetries transport =
     (case fst (apiClient maxRetries transport 0 newRequest) of
        Fulfilled response \<Rightarrow>
          if status response = 200
          then Inr \<lparr>py_success = True,
                    py_results = (case results response of None \<Rightarrow> [] | Some rs \<Rightarrow> rs)\<rparr>
          else Inl ''Error en busqueda personalizada: Respuesta inesperada del servicio de Python''
      | Rejected error \<Rightarrow> Inl (''Error en busqueda personalizada: '' @ err_message error))"

section \<open>The search controller\<close>

text \<open>
  A service document, with the fields the search reads. Numbers are integers
  here: the controller only compares them. Every document has a relevance:
  the schema defaults it to 50 and the controller sets it on a new document.
\<close>

record service =
  s_id :: string
  s_title :: string
  s_description :: string
  s_category :: jsval
  s_price :: string
  s_location :: string
  s_rating :: int
  s_relevance :: int
  s_contactInfo :: string
  s_sourceUrl :: "string option"
  s_premiumOnly :: bool
  s_verified :: bool

record search_result =
  sr_data :: "service list"
  sr_page :: int
  sr_limit :: int
  sr_total :: nat

record recent_search =
  rs_query :: string
  rs_timestamp :: nat

record user_doc =
  recentSearches :: "recent_search list"

text \<open>\<^verbatim>\<open>UserSchema.methods.addRecentSearch\<close>, at the time \<open>now\<close>.\<close>

definition addRecentSearch :: "string \<Rightarrow> nat \<Rightarrow> user_doc \<Rightarrow> user_doc" where
  "addRecentSearch query now u =
     (let unshifted = \<lparr>rs_query = query, rs_timestamp = now\<rparr> # recentSearches u
      in u\<lparr>recentSearches :=
             (if length unshifted > 10 then take 10 unshifted else unshifted)\<rparr>)"

text \<open>
  The request: the body as it is parsed (an absent field is \<open>None\<close> or
  \<open>JUndefined\<close>) and \<^verbatim>\<open>req.user\<close>.
\<close>

record search_body =
  b_query :: "string option"
  b_category :: jsval
  b_location :: jsval
  b_price :: jsval
  b_page :: "int option"
  b_limit :: "int option"

record req_user =
  u_id :: string
  u_verified :: bool

record request =
  body :: search_body
  user :: "req_user option"

record search_value =
  v_query :: string
  v_category :: jsval
  v_location :: jsval
  v_price :: jsval
  v_page :: int
  v_limit :: int

definition stringOrEmpty :: "jsval \<Rightarrow> bool" where
  "stringOrEmpty v = (case v of JNum n \<Rightarrow> False | _ \<Rightarrow> True)"

definition priceOk :: "jsval \<Rightarrow> bool" where
  "priceOk v =
     (case v of
        JNum n \<Rightarrow> False
      | JStr p \<Rightarrow> p \<in> set [''$'', ''$$'', ''$$$'', ''$$$$'', []]
      | _ \<Rightarrow> True)"

text \<open>
  \<^verbatim>\<open>validate(req.body, schemas.search)\<close>: the query has 2 to 100 characters,
  category and location are strings or empty, the price is one of the four
  tiers or empty, the page is at least 1 (default 1) and the limit within 1..50
  (default 20). The text of the error is not modelled.
\<close>

definition validate :: "search_body \<Rightarrow> string + search_value" where
  "validate b =
     (case b_query b of
        None \<Rightarrow> Inl ''validation''
      | Some q \<Rightarrow>
          let page = (case b_page b of None \<Rightarrow> 1 | Some p \<Rightarrow> p);
              limit = (case b_limit b of None \<Rightarrow> 20 | Some l \<Rightarrow> l)
          in if 2 \<le> length q \<and> length q \<le> 100 \<and>
                stringOrEmpty (b_category b) \<and> stringOrEmpty (b_location b) \<and>
                priceOk (b_price b) \<and> 1 \<le> page \<and> 1 \<le> limit \<and> limit \<le> 50
             then Inr \<lparr>v_query = q, v_category = b_category b, v_location = b_location b,
                       v_price = b_price b, v_page = page, v_limit = limit\<rparr>
             else Inl ''validation'')"

text \<open>The key of line 44: page and limit are part of the filters object.\<close>

definition searchCacheKey :: "search_value \<Rightarrow> string" where
  "searchCacheKey v =
     getSearchKey (v_query v)
       [(''category'', v_category v), (''location'', v_location v), (''price'', v_price v),
        (''page'', JNum (v_page v)), (''limit'', JNum (v_limit v))]"

text \<open>
  The query sent to the document store. \<^verbatim>\<open>x || undefined\<close> keeps a non-empty
  string only.
\<close>

record db_query =
  q_text :: string
  q_category :: "string option"
  q_location :: "string option"
  q_price :: "string option"
  q_nonPremiumOnly :: bool
  q_skip :: int
  q_limit :: int

definition truthyString :: "jsval \<Rightarrow> string option" where
  "truthyString v = (case v of JStr s \<Rightarrow> if s = [] then None else Some s | _ \<Rightarrow> None)"

definition searchQuery :: "search_value \<Rightarrow> req_user option \<Rightarrow> db_query" where
  "searchQuery v u =
     \<lparr>q_text = v_query v,
      q_category = truthyString (v_category v),
      q_location = truthyString (v_location v),
      q_price = truthyString (v_price v),
      q_nonPremiumOnly = (case u of None \<Rightarrow> True | Some usr \<Rightarrow> \<not> u_verified usr),
      q_skip = (v_page v - 1) * v_limit v,
      q_limit = v_limit v\<rparr>"

text \<open>
  What the collaborators of one request do: the clock, the document store
  (its answer to the text query; for the candidate numbered \<open>i\<close> of a remote
  batch the answer to the look-up of a similar service, the identity of a new
  document and the error of saving it, if any; the errors of finding and of
  saving the user), the remote service (what each HTTP attempt of the custom
  search of this request meets) and the configured number of retries.
\<close>

record env =
  now :: nat
  findServices :: "db_query \<Rightarrow> string + (service list \<times> nat)"
  transport :: "nat \<Rightarrow> attempt"
  maxRetries :: nat
  findOneService :: "nat \<Rightarrow> remote_result \<Rightarrow> jsval \<Rightarrow> string + service option"
  newServiceId :: "nat \<Rightarrow> string"
  saveServiceError :: "nat \<Rightarrow> service \<Rightarrow> string option"
  findUserError :: "string option"
  saveUserError :: "string option"

text \<open>
  The state the controller works on: the shared cache (the search controller
  reads and writes keys of the search namespace only, so its values are search
  results), the users, and the number of calls of \<^verbatim>\<open>customSearch\<close> so far.
\<close>

record world =
  cache :: "search_result cache_service"
  users :: "string \<rightharpoonup> user_doc"
  pythonCalls :: nat

text \<open>
  An answer: the records with page, limit, total and message, or a status with
  a message. The pagination flags the formatter derives from page, limit and
  total, and the details attached to an error, are left out.
\<close>

datatype response =
    Paginated "service list" int int nat string
  | Failure nat string

definition sentinel :: string where
  "sentinel = ''*** Requiere pago para acceder ***''"

definition transform :: "service \<Rightarrow> service" where
  "transform s = (if s_premiumOnly s then s\<lparr>s_contactInfo := sentinel\<rparr> else s)"

text \<open>
  What \<^verbatim>\<open>ServiceSchema\<close> demands of a document that is saved: title,
  description, category, location and contactInfo are required, the price is
  one of the four tiers, the rating lies within 0..5 and the relevance within
  0..100. A category that is undefined, null or the empty string fails;
  whether a non-empty string names a category is the store's answer.
\<close>

definition schemaValid :: "service \<Rightarrow> bool" where
  "schemaValid s =
     (s_title s \<noteq> [] \<and> s_description s \<noteq> [] \<and>
      (case s_category s of JStr c \<Rightarrow> c \<noteq> [] | _ \<Rightarrow> False) \<and>
      s_price s \<in> set [''$'', ''$$'', ''$$$'', ''$$$$''] \<and>
      s_location s \<noteq> [] \<and> 0 \<le> s_rating s \<and> s_rating s \<le> 5 \<and>
      0 \<le> s_relevance s \<and> s_relevance s \<le> 100 \<and> s_contactInfo s \<noteq> [])"

text \<open>
  The body of the loop over the remote results, for the candidate numbered
  \<open>i\<close>; \<open>None\<close> when an error is caught and the candidate skipped. The module
  never binds \<^verbatim>\<open>mongoose\<close>, so the test on a candidate whose category is a
  non-empty string raises a ReferenceError, which the loop catches. The
  category of a new document is the one of the request; the schema trims the
  title; \<^verbatim>\<open>save\<close> throws when the document fails the schema or the store
  reports an error.
\<close>

definition orDefault :: "string option \<Rightarrow> string \<Rightarrow> string" where
  "orDefault v d = (case v of None \<Rightarrow> d | Some s \<Rightarrow> if s = [] then d else s)"

definition ingestOne :: "env \<Rightarrow> jsval \<Rightarrow> nat \<Rightarrow> remote_result \<Rightarrow> service option" where
  "ingestOne e categoryId i r =
     (if (case rr_category r of JStr c \<Rightarrow> c \<noteq> [] | _ \<Rightarrow> False) then None
      else
        case findOneService e i r categoryId of
          Inl err \<Rightarrow> None
        | Inr (Some existingService) \<Rightarrow> Some existingService
        | Inr None \<Rightarrow>
            let newService =
                  \<lparr>s_id = newServiceId e i,
                   s_title = trim (rr_title r),
                   s_description = rr_description r,
                   s_category = categoryId,
                   s_price = orDefault (rr_price r) ''$$'',
                   s_location = orDefault (rr_location r) ''No especificada'',
                   s_rating = (case rr_rating r of None \<Rightarrow> 0 | Some x \<Rightarrow> x),
                   s_relevance = (case rr_relevance r of None \<Rightarrow> 0 | Some x \<Rightarrow> x),
                   s_contactInfo = orDefault (rr_contactInfo r) ''Informacion no disponible'',
                   s_sourceUrl = rr_sourceUrl r,
                   s_premiumOnly = True,
                   s_verified = False\<rparr>
            in if \<not> schemaValid newService then None
               else
                 case saveServiceError e i newService of
                   Some err \<Rightarrow> None
                 | None \<Rightarrow> Some newService)"

fun ingest :: "env \<Rightarrow> jsval \<Rightarrow> nat \<Rightarrow> remote_result list \<Rightarrow> service list" where
  "ingest e categoryId i [] = []"
| "ingest e categoryId i (r # rs) =
     (case ingestOne e categoryId i r of
        None \<Rightarrow> ingest e categoryId (Suc i) rs
      | Some s \<Rightarrow> s # ingest e categoryId (Suc i) rs)"

text \<open>
  The Map of lines 203 to 215, in insertion order: local services are set under
  their identity, a new service is added only when its identity is not there.
\<close>

definition combinedServicesMap :: "service list \<Rightarrow> service list \<Rightarrow> (string \<times> service) list" where
  "combinedServicesMap services newServices =
     fold (\<lambda>s m. if map_of m (s_id s) = None then AList.update (s_id s) s m else m)
       newServices
       (fold (\<lambda>s m. AList.update (s_id s) s m) services [])"

text \<open>
  The comparator of lines 219 to 226. Both records are documents and have a
  relevance, so the test of line 221 holds and the difference of the
  relevances is returned; the comparison of ratings of line 225 is not
  reached.
\<close>

definition compareServices :: "service \<Rightarrow> service \<Rightarrow> int" where
  "compareServices a b = s_relevance b - s_relevance a"

definition combinedServices :: "service list \<Rightarrow> service list \<Rightarrow> service list" where
  "combinedServices services newServices =
     sortBy compareServices (map snd (combinedServicesMap services newServices))"

text \<open>\<^verbatim>\<open>Array.prototype.slice(start, end)\<close>; a negative index counts from the end.\<close>

definition sliceIndex :: "nat \<Rightarrow> int \<Rightarrow> nat" where
  "sliceIndex n i = (if i < 0 then nat (int n + i) else min (nat i) n)"

definition slice :: "int \<Rightarrow> int \<Rightarrow> 'a list \<Rightarrow> 'a list" where
  "slice startIndex endIndex xs =
     (let a = sliceIndex (length xs) startIndex; b = sliceIndex (length xs) endIndex
      in take (b - a) (drop a xs))"

text \<open>
  Registering the search of an authenticated user (lines 112 to 122, and again
  on the two later paths): every error is caught and logged.
\<close>

definition recordSearch :: "env \<Rightarrow> req_user option \<Rightarrow> string \<Rightarrow> world \<Rightarrow> world" where
  "recordSearch e u query w =
     (case u of
        None \<Rightarrow> w
      | Some usr \<Rightarrow>
          if u_id usr = [] then w
          else
            case findUserError e of
              Some err \<Rightarrow> w
            | None \<Rightarrow>
                (case users w (u_id usr) of
                   None \<Rightarrow> w
                 | Some doc \<Rightarrow>
                     (case saveUserError e of
                        Some err \<Rightarrow> w
                      | None \<Rightarrow>
                          w\<lparr>users := (users w)(u_id usr \<mapsto> addRecentSearch query (now e) doc)\<rparr>)))"

text \<open>
  The common end of the three paths that computed a result: write it to the
  cache, register the search, answer.
\<close>

definition respond ::
  "env \<Rightarrow> request \<Rightarrow> search_value \<Rightarrow> string \<Rightarrow> service list \<Rightarrow> nat \<Rightarrow> string \<Rightarrow> world
     \<Rightarrow> response \<times> world" where
  "respond e req v cacheKey transformedServices totalCount message w =
     (let result = \<lparr>sr_data = transformedServices, sr_page = v_page v,
                     sr_limit = v_limit v, sr_total = totalCount\<rparr>;
          w1 = w\<lparr>cache := snd (cacheSet (now e) cacheKey (Some result) None (cache w))\<rparr>;
          w2 = recordSearch e (user req) (v_query v) w1
      in (Paginated transformedServices (v_page v) (v_limit v) totalCount message, w2))"

definition internalError :: response where
  "internalError = Failure 500 ''Error al procesar la busqueda''"

text \<open>\<^verbatim>\<open>search\<close>, the handler of POST /api/search.\<close>

definition search :: "env \<Rightarrow> request \<Rightarrow> world \<Rightarrow> response \<times> world" where
  "search e req w =
     (case validate (body req) of
        Inl err \<Rightarrow> (Failure 400 err, w)
      | Inr v \<Rightarrow>
          let cacheKey = searchCacheKey v;
              looked = cacheGet (now e) cacheKey (cache w);
              w1 = w\<lparr>cache := snd looked\<rparr>
          in case fst looked of
               Some cachedResults \<Rightarrow>
                 (Paginated (sr_data cachedResults) (sr_page cachedResults)
                    (sr_limit cachedResults) (sr_total cachedResults)
                    ''Resultados de busqueda obtenidos de cache'', w1)
             | None \<Rightarrow>
                 (case findServices e (searchQuery v (user req)) of
                    Inl err \<Rightarrow> (internalError, w1)
                  | Inr (services, totalCount) \<Rightarrow>
                      if length services \<ge> 5 \<or> totalCount \<ge> 10
                      then respond e req v cacheKey (map transform services) totalCount
                             ''Resultados de busqueda obtenidos correctamente'' w1
                      else
                        let w2 = w1\<lparr>pythonCalls := pythonCalls w1 + 1\<rparr>
                        in case customSearch (maxRetries e) (transport e) of
                             Inl err \<Rightarrow> (internalError, w2)
                           | Inr pythonResults \<Rightarrow>
                               if py_success pythonResults \<and> length (py_results pythonResults) > 0
                               then
                                 let newServices = ingest e (v_category v) 0 (py_results pythonResults);
                                     combined = combinedServices services newServices;
                                     startIndex = (v_page v - 1) * v_limit v;
                                     endIndex = startIndex + v_limit v;
                                     paginatedServices = slice startIndex endIndex combined
                                 in respond e req v cacheKey (map transform paginatedServices)
                                      (length combined)
                                      ''Resultados de busqueda obtenidos correctamente (combinados)'' w2
                               else respond e req v cacheKey (map transform services) totalCount
                                      ''Resultados de busqueda obtenidos correctamente'' w2))"

section \<open>Concrete data\<close>

text \<open>Requests, documents and collaborators on which the theorems below are run.\<close>

definition plumbing :: string where
  "plumbing = ''507f1f77bcf86cd799439011''"

definition mkService :: "string \<Rightarrow> int \<Rightarrow> int \<Rightarrow> bool \<Rightarrow> service" where
  "mkService i relevance rating premium =
     \<lparr>s_id = i, s_title = ''Plumber'', s_description = ''Pipes and drains'',
      s_category = JStr plumbing, s_price = ''$$'', s_location = ''Austin'',
      s_rating = rating, s_relevance = relevance, s_contactInfo = ''555-0100'',
      s_sourceUrl = None, s_premiumOnly = premium, s_verified = False\<rparr>"

definition plumberBody :: "string \<Rightarrow> string \<Rightarrow> search_body" where
  "plumberBody q loc =
     \<lparr>b_query = Some q, b_category = JUndefined, b_location = JStr loc,
      b_price = JUndefined, b_page = None, b_limit = None\<rparr>"

definition plumberValue :: "string \<Rightarrow> string \<Rightarrow> search_value" where
  "plumberValue q loc =
     \<lparr>v_query = q, v_category = JUndefined, v_location = JStr loc,
      v_price = JUndefined, v_page = 1, v_limit = 20\<rparr>"

definition timeoutError :: axios_error where
  "timeoutError = \<lparr>err_code = Some ''ECONNABORTED'', err_response = None,
                    err_hasConfig = True, err_message = ''timeout of 30000ms exceeded''\<rparr>"

definition noResults :: attempt where
  "noResults = Fulfilled \<lparr>status = 200, results = Some []\<rparr>"

text \<open>
  Collaborators that work: the store answers the text query with \<open>services\<close>
  and the count \<open>n\<close>, finds no similar service and reports no error when a
  document is saved; every HTTP attempt meets \<open>remote\<close>.
\<close>

definition quietEnv :: "nat \<Rightarrow> service list \<Rightarrow> nat \<Rightarrow> attempt \<Rightarrow> env" where
  "quietEnv t services n remote =
     \<lparr>now = t, findServices = (\<lambda>q. Inr (services, n)), transport = (\<lambda>k. remote),
      maxRetries = 3, findOneService = (\<lambda>i r c. Inr None),
      newServiceId = (\<lambda>i. ''new'' @ showNat i), saveServiceError = (\<lambda>i s. None),
      findUserError = None, saveUserError = None\<rparr>"

definition emptyWorld :: world where
  "emptyWorld = \<lparr>cache = emptyCache, users = Map.empty, pythonCalls = 0\<rparr>"

definition fiveLocal :: "service list" where
  "fiveLocal = map (\<lambda>i. mkService i 50 4 False) [''a'', ''b'', ''c'', ''d'', ''e'']"

definition twoLocal :: "service list" where
  "twoLocal = [mkService ''a'' 50 4 False, mkService ''b'' 70 3 True]"

definition countedRequest :: request_config where
  "countedRequest = \<lparr>cfg_retry = False, cfg_retryCount = Some 0\<rparr>"

definition plumberPage :: "string \<Rightarrow> string \<Rightarrow> int \<Rightarrow> int \<Rightarrow> search_body" where
  "plumberPage q loc pg lm = (plumberBody q loc)\<lparr>b_page := Some pg, b_limit := Some lm\<rparr>"

definition plumberValueAt :: "string \<Rightarrow> string \<Rightarrow> int \<Rightarrow> int \<Rightarrow> search_value" where
  "plumberValueAt q loc pg lm = (plumberValue q loc)\<lparr>v_page := pg, v_limit := lm\<rparr>"

definition alice :: req_user where
  "alice = \<lparr>u_id = ''u1'', u_verified = True\<rparr>"

definition aliceWorld :: world where
  "aliceWorld = emptyWorld\<lparr>users := [''u1'' \<mapsto> \<lparr>recentSearches = []\<rparr>]\<rparr>"

text \<open>
  A record is redacted when it does not carry the contact of a premium
  service; a result set, a response or the cache is when all its records are.
\<close>

definition redacted :: "service \<Rightarrow> bool" where
  "redacted s = (if s_premiumOnly s then s_contactInfo s = sentinel else True)"

definition responseRedacted :: "response \<Rightarrow> bool" where
  "responseRedacted r =
     (case r of Paginated d p l n msg \<Rightarrow> list_all redacted d | Failure c msg \<Rightarrow> True)"

definition cacheRedacted :: "search_result cache_service \<Rightarrow> bool" where
  "cacheRedacted c = list_all (\<lambda>kv. list_all redacted (sr_data (ce_value (snd kv)))) (store c)"

text \<open>A sequence of searches, each with its collaborators, and the answers in order.\<close>

fun searches :: "(env \<times> request) list \<Rightarrow> world \<Rightarrow> response list \<times> world" where
  "searches [] w = ([], w)"
| "searches (step # rest) w =
     (case search (fst step) (snd step) w of
        (r, w1) \<Rightarrow> (case searches rest w1 of (rs, w2) \<Rightarrow> (r # rs, w2)))"

definition anonymous :: "search_body \<Rightarrow> request" where
  "anonymous b = \<lparr>body = b, user = None\<rparr>"

text \<open>
  The three parts of a search key around the limit and the page, and the value
  a decimal numeral stands for.
\<close>

definition keyHead :: "search_value \<Rightarrow> string" where
  "keyHead v =
     ''search:q:'' @ normalizeQuery (v_query v) @ '':filters:'' @
     (if retained (''category'', v_category v)
      then ''category:'' @ toString (v_category v) @ ''|'' else []) @
     ''limit:''"

definition keyMid :: "search_value \<Rightarrow> string" where
  "keyMid v =
     (if retained (''location'', v_location v)
      then ''location:'' @ toString (v_location v) @ ''|'' else []) @
     ''page:''"

definition keyTail :: "search_value \<Rightarrow> string" where
  "keyTail v =
     (if retained (''price'', v_price v) then ''|price:'' @ toString (v_price v) else [])"

definition isDigit :: "char \<Rightarrow> bool" where
  "isDigit c = (c \<in> set ''0123456789'')"

definition digitValue :: "char \<Rightarrow> nat" where
  "digitValue c = (case map_of (zip ''0123456789'' [0, 1, 2, 3, 4, 5, 6, 7, 8, 9]) c of
                     None \<Rightarrow> 0 | Some d \<Rightarrow> d)"

definition readNat :: "string \<Rightarrow> nat" where
  "readNat s = foldl (\<lambda>acc c. 10 * acc + digitValue c) 0 s"

text \<open>
  A comparison orders a set of names when, on that set, it is total,
  antisymmetric and transitive (reading a result that is not positive as
  ``not after'').
\<close>

definition ordersNames :: "(string \<Rightarrow> string \<Rightarrow> int) \<Rightarrow> string set \<Rightarrow> bool" where
  "ordersNames cmp K =
     ((\<forall>a\<in>K. \<forall>b\<in>K. (cmp a b \<le> 0 \<or> cmp b a \<le> 0) \<and> (cmp a b \<le> 0 \<and> cmp b a \<le> 0 \<longrightarrow> a = b)) \<and>
      (\<forall>a\<in>K. \<forall>b\<in>K. \<forall>c\<in>K. cmp a b \<le> 0 \<and> cmp b c \<le> 0 \<longrightarrow> cmp a c \<le> 0))"

definition responseData :: "response \<Rightarrow> service list" where
  "responseData r = (case r of Paginated d p l n msg \<Rightarrow> d | Failure c msg \<Rightarrow> [])"

definition responseTotal :: "response \<Rightarrow> nat" where
  "responseTotal r = (case r of Paginated d p l n msg \<Rightarrow> n | Failure c msg \<Rightarrow> 0)"

definition remoteResult :: "string \<Rightarrow> int \<Rightarrow> int \<Rightarrow> remote_result" where
  "remoteResult t relevance rating =
     \<lparr>rr_title = t, rr_description = ''Found on the web'', rr_category = JNull,
      rr_price = None, rr_location = Some ''Austin'', rr_rating = Some rating,
      rr_relevance = Some relevance, rr_contactInfo = Some ''555-0199'',
      rr_sourceUrl = Some (''https://example.org/'' @ t)\<rparr>"

definition fiveRemote :: "remote_result list" where
  "fiveRemote =
     [remoteResult ''p0'' 90 2, remoteResult ''p1'' 60 5, remoteResult ''p2'' 50 5,
      remoteResult ''p3'' 80 1, remoteResult ''p4'' 10 3]"

text \<open>A search for plumbers within the category \<open>plumbing\<close>.\<close>

definition categoryBody :: search_body where
  "categoryBody = (plumberBody ''plumber'' ''Austin'')\<lparr>b_category := JStr plumbing\<rparr>"

definition categoryValue :: search_value where
  "categoryValue = (plumberValue ''plumber'' ''Austin'')\<lparr>v_category := JStr plumbing\<rparr>"

definition mergeEnv :: env where
  "mergeEnv = quietEnv 1000 twoLocal 2 (Fulfilled \<lparr>status = 200, results = Some fiveRemote\<rparr>)"

text \<open>The step of the second loop over the Map: a service is added when its identity is new.\<close>

definition addNew :: "service \<Rightarrow> (string \<times> service) list \<Rightarrow> (string \<times> service) list" where
  "addNew s m = (if map_of m (s_id s) = None then AList.update (s_id s) s m else m)"

definition exampleCache :: "nat cache_service" where
  "exampleCache =
     \<lparr>store = [(''categories:all'', \<lparr>ce_value = 1, ce_expires = 3600000\<rparr>),
               (''search:q:categories: plumbing'', \<lparr>ce_value = 2, ce_expires = 300000\<rparr>),
               (''services:id:1'', \<lparr>ce_value = 3, ce_expires = 1800000\<rparr>)],
      hits = 0, misses = 0, sets = 3\<rparr>"

text \<open>The world after the cache look-up of a search, and after a call of customSearch.\<close>

definition afterLookup :: "env \<Rightarrow> search_value \<Rightarrow> world \<Rightarrow> world" where
  "afterLookup e v w = w\<lparr>cache := snd (cacheGet (now e) (searchCacheKey v) (cache w))\<rparr>"

definition called :: "world \<Rightarrow> world" where
  "called w = w\<lparr>pythonCalls := pythonCalls w + 1\<rparr>"

section \<open>Properties of invalidatePattern\<close>

lemma replaceFirstStar_plain:
  "CHR ''*'' \<notin> set p \<Longrightarrow> replaceFirstStar (p @ ''*'') = p @ ''.*''"
  by (induction p) auto

lemma rx_compile_literal:
  "\<forall>c\<in>set p. \<not> rx_special c \<Longrightarrow>
   rx_compile (p @ ''.*'') = Some (map (\<lambda>c. Once (RxChar c)) p @ [Star RxAny])"
proof (induction p)
  case Nil
  show ?case by (simp add: rx_atom_of_def)
next
  case (Cons c p)
  then have c: "rx_atom_of c = Some (RxChar c)"
    by (auto simp: rx_atom_of_def rx_special_def)
  show ?case
  proof (cases p)
    case Nil
    then show ?thesis using c by (simp add: rx_atom_of_def)
  next
    case (Cons d q)
    with Cons.prems have "d \<noteq> CHR ''*''" by (auto simp: rx_special_def)
    with Cons.IH Cons.prems c Cons show ?thesis by simp
  qed
qed

lemma rx_match_here_any: "rx_match_here [Star RxAny] s"
  by (induction s) auto

lemma rx_match_here_literal:
  "rx_match_here (map (\<lambda>c. Once (RxChar c)) p @ [Star RxAny]) s = startsWith s p"
proof (induction p arbitrary: s)
  case Nil
  show ?case by (simp add: rx_match_here_any startsWith_def)
next
  case (Cons c p)
  show ?case by (cases s) (auto simp: Cons.IH startsWith_def)
qed

lemma rx_test_literal:
  "rx_test (map (\<lambda>c. Once (RxChar c)) p @ [Star RxAny]) s = str_includes s p"
  by (induction s) (auto simp: rx_match_here_literal startsWith_def)

lemma cacheKeys_fold_nodeDel:
  "cacheKeys (fold nodeDel ks c) = filter (\<lambda>k. k \<notin> set ks) (cacheKeys c)"
proof (induction ks arbitrary: c)
  case Nil
  show ?case by simp
next
  case (Cons k ks)
  have "cacheKeys (nodeDel k c) = filter (\<lambda>x. x \<noteq> k) (cacheKeys c)"
    by (auto simp: cacheKeys_def nodeDel_def AList.delete_keys removeAll_filter_not_eq
        intro: filter_cong)
  then show ?case by (auto simp: Cons.IH intro: filter_cong)
qed

text \<open>
  What the code does with a pattern \<open>p*\<close> whose prefix \<open>p\<close> has no
  metacharacter of regular expressions: the expression is not anchored, so the
  keys removed, and counted, are those that contain \<open>p\<close> anywhere.
\<close>

lemma invalidatePattern_literal:
  assumes "\<forall>c\<in>set p. \<not> rx_special c"
  shows "\<exists>c'. invalidatePattern (p @ ''*'') c =
           Some (length (filter (\<lambda>k. str_includes k p) (cacheKeys c)), c') \<and>
           cacheKeys c' = filter (\<lambda>k. \<not> str_includes k p) (cacheKeys c)"
proof -
  from assms have "CHR ''*'' \<notin> set p" by (auto simp: rx_special_def)
  then have "replaceFirstStar (p @ ''*'') = p @ ''.*''" by (rule replaceFirstStar_plain)
  moreover have "filter (\<lambda>k. k \<notin> set (filter (\<lambda>k. str_includes k p) ks)) ks =
      filter (\<lambda>k. \<not> str_includes k p) ks" for ks
    by (auto intro: filter_cong)
  moreover have "rx_test (map (\<lambda>c. Once (RxChar c)) p @ [Star RxAny]) = (\<lambda>k. str_includes k p)"
    by (rule ext) (rule rx_test_literal)
  ultimately show ?thesis using rx_compile_literal [OF assms]
    by (simp add: invalidatePattern_def Let_def cacheKeys_fold_nodeDel)
qed

text \<open>
  C3. The claim: for a pattern \<open>prefix*\<close>, invalidatePattern removes exactly the
  keys that start with the prefix, and returns their number. The code does
  otherwise: in a cache holding \<open>categories:all\<close>, \<open>services:id:1\<close> and the entry
  of a search for the text \<open>categories: plumbing\<close>, the pattern \<open>categories:*\<close>
  removes two keys, one of them the search entry, which does not start with
  \<open>categories:\<close>; exactly one key starts with the prefix.
\<close>

theorem invalidatePattern_removes_key_without_prefix:
  "map_option (\<lambda>r. (fst r, cacheKeys (snd r))) (invalidatePattern ''categories:*'' exampleCache)
     = Some (2, [''services:id:1'']) \<and>
   filter (\<lambda>k. startsWith k ''categories:'') (cacheKeys exampleCache) = [''categories:all'']"
  by (simp add: invalidatePattern_def rx_atom_of_def rx_special_def cacheKeys_def nodeDel_def
      exampleCache_def startsWith_def)

section \<open>The paths of search\<close>

lemma recordSearch_cache [simp]: "cache (recordSearch e u q w) = cache w"
  by (simp add: recordSearch_def split: option.splits)

lemma recordSearch_pythonCalls [simp]: "pythonCalls (recordSearch e u q w) = pythonCalls w"
  by (simp add: recordSearch_def split: option.splits)

lemma fst_respond [simp]:
  "fst (respond e req v key xs n msg w) = Paginated xs (v_page v) (v_limit v) n msg"
  by (simp add: respond_def Let_def)

lemma pythonCalls_respond [simp]:
  "pythonCalls (snd (respond e req v key xs n msg w)) = pythonCalls w"
  by (simp add: respond_def Let_def)

lemma cache_respond [simp]:
  "cache (snd (respond e req v key xs n msg w)) =
   snd (cacheSet (now e) key
     (Some \<lparr>sr_data = xs, sr_page = v_page v, sr_limit = v_limit v, sr_total = n\<rparr>) None (cache w))"
  by (simp add: respond_def Let_def)

lemma users_respond [simp]:
  "users (snd (respond e req v key xs n msg w)) =
   users (recordSearch e (user req) (v_query v) w)"
  by (simp add: respond_def Let_def recordSearch_def split: option.splits)

lemma search_invalid:
  "validate (body req) = Inl err \<Longrightarrow> search e req w = (Failure 400 err, w)"
  by (simp add: search_def)

lemma search_hit:
  assumes "validate (body req) = Inr v"
    and "fst (cacheGet (now e) (searchCacheKey v) (cache w)) = Some r"
  shows "search e req w =
    (Paginated (sr_data r) (sr_page r) (sr_limit r) (sr_total r)
       ''Resultados de busqueda obtenidos de cache'', afterLookup e v w)"
  using assms by (simp add: search_def Let_def afterLookup_def)

lemma search_store_failed:
  assumes "validate (body req) = Inr v"
    and "fst (cacheGet (now e) (searchCacheKey v) (cache w)) = None"
    and "findServices e (searchQuery v (user req)) = Inl err"
  shows "search e req w = (internalError, afterLookup e v w)"
  using assms by (simp add: search_def Let_def afterLookup_def)

lemma search_local_enough:
  assumes "validate (body req) = Inr v"
    and "fst (cacheGet (now e) (searchCacheKey v) (cache w)) = None"
    and "findServices e (searchQuery v (user req)) = Inr (services, n)"
    and "length services \<ge> 5 \<or> n \<ge> 10"
  shows "search e req w =
    respond e req v (searchCacheKey v) (map transform services) n
      ''Resultados de busqueda obtenidos correctamente'' (afterLookup e v w)"
  using assms by (simp add: search_def Let_def afterLookup_def)

lemma search_remote_failed:
  assumes "validate (body req) = Inr v"
    and "fst (cacheGet (now e) (searchCacheKey v) (cache w)) = None"
    and "findServices e (searchQuery v (user req)) = Inr (services, n)"
    and "length services < 5" and "n < 10"
    and "customSearch (maxRetries e) (transport e) = Inl err"
  shows "search e req w = (internalError, called (afterLookup e v w))"
  using assms by (simp add: search_def Let_def afterLookup_def called_def)

lemma search_remote_empty:
  assumes "validate (body req) = Inr v"
    and "fst (cacheGet (now e) (searchCacheKey v) (cache w)) = None"
    and "findServices e (searchQuery v (user req)) = Inr (services, n)"
    and "length services < 5" and "n < 10"
    and "customSearch (maxRetries e) (transport e) = Inr py"
    and "\<not> py_success py \<or> py_results py = []"
  shows "search e req w =
    respond e req v (searchCacheKey v) (map transform services) n
      ''Resultados de busqueda obtenidos correctamente'' (called (afterLookup e v w))"
  using assms by (auto simp add: search_def Let_def afterLookup_def called_def)

lemma search_remote_merged:
  assumes "validate (body req) = Inr v"
    and "fst (cacheGet (now e) (searchCacheKey v) (cache w)) = None"
    and "findServices e (searchQuery v (user req)) = Inr (services, n)"
    and "length services < 5" and "n < 10"
    and "customSearch (maxRetries e) (transport e) = Inr py"
    and "py_success py" and "py_results py \<noteq> []"
  shows "search e req w =
    respond e req v (searchCacheKey v)
      (map transform
        (slice ((v_page v - 1) * v_limit v) ((v_page v - 1) * v_limit v + v_limit v)
          (combinedServices services (ingest e (v_category v) 0 (py_results py)))))
      (length (combinedServices services (ingest e (v_category v) 0 (py_results py))))
      ''Resultados de busqueda obtenidos correctamente (combinados)'' (called (afterLookup e v w))"
  using assms by (simp add: search_def Let_def afterLookup_def called_def)

lemma validate_plumberBody:
  "2 \<le> length q \<Longrightarrow> length q \<le> 100 \<Longrightarrow>
   validate (plumberBody q loc) = Inr (plumberValue q loc)"
  by (simp add: validate_def plumberBody_def plumberValue_def stringOrEmpty_def priceOk_def)

lemma cacheGet_emptyCache: "fst (cacheGet t k emptyCache) = None"
  by (simp add: cacheGet_def emptyCache_def)

section \<open>The sufficiency gate\<close>

text \<open>
  C6. For every search that misses the cache: when the local query returns a
  page of at least 5 records or a count of at least 10, customSearch is not
  called (the number of calls is unchanged) and the answer is the local page,
  with its count.
\<close>

theorem search_sufficient_local_skips_remote:
  assumes "validate (body req) = Inr v"
    and "fst (cacheGet (now e) (searchCacheKey v) (cache w)) = None"
    and "findServices e (searchQuery v (user req)) = Inr (services, n)"
    and "length services \<ge> 5 \<or> n \<ge> 10"
  shows "pythonCalls (snd (search e req w)) = pythonCalls w \<and>
         fst (search e req w) =
           Paginated (map transform services) (v_page v) (v_limit v) n
             ''Resultados de busqueda obtenidos correctamente''"
  using search_local_enough [OF assms] by (simp add: afterLookup_def)

theorem search_sufficient_local_skips_remote_witness:
  "pythonCalls (snd (search (quietEnv 1000 fiveLocal 5 noResults)
      \<lparr>body = plumberBody ''plumber'' ''Austin'', user = None\<rparr> emptyWorld)) = 0 \<and>
   fst (search (quietEnv 1000 fiveLocal 5 noResults)
      \<lparr>body = plumberBody ''plumber'' ''Austin'', user = None\<rparr> emptyWorld) =
     Paginated fiveLocal 1 20 5 ''Resultados de busqueda obtenidos correctamente''"
proof -
  have t: "map transform fiveLocal = fiveLocal"
    by (simp add: fiveLocal_def transform_def mkService_def)
  show ?thesis
    using search_sufficient_local_skips_remote
      [where req = "\<lparr>body = plumberBody ''plumber'' ''Austin'', user = None\<rparr>"
         and v = "plumberValue ''plumber'' ''Austin''"
         and e = "quietEnv 1000 fiveLocal 5 noResults" and w = emptyWorld
         and services = fiveLocal and n = 5]
    by (simp add: validate_plumberBody emptyWorld_def cacheGet_emptyCache t)
      (simp add: quietEnv_def fiveLocal_def plumberValue_def)
qed


section \<open>Remote failure\<close>

lemma customSearch_noResults:
  "customSearch m (\<lambda>k. noResults) = Inr \<lparr>py_success = True, py_results = []\<rparr>"
  by (simp add: customSearch_def apiClient.simps noResults_def)





section \<open>The retry interceptor\<close>

lemma onRejected_Retry:
  assumes "onRejected m err config = Retry config' d"
  shows "cfg_retry config' \<and> \<not> cfg_retry config \<and>
         (err_code err = Some ''ECONNABORTED'' \<or> err_response err = None) \<and>
         (\<exists>c. cfg_retryCount config = Some c \<and> c < m \<and> cfg_retryCount config' = Some (Suc c) \<and>
              d = 2 ^ Suc c * 1000)"
  using assms by (auto simp: onRejected_def Let_def split: if_splits option.splits)

lemma apiClient_flagged:
  "cfg_retry config \<Longrightarrow> snd (apiClient m t k config) = []"
  by (subst apiClient.simps) (auto simp: onRejected_def split: attempt.splits)

lemma apiClient_at_most_one_retry: "length (snd (apiClient m t k config)) \<le> 1"
proof (cases "t k")
  case (Fulfilled r)
  then show ?thesis by (subst apiClient.simps) simp
next
  case (Rejected err)
  show ?thesis
  proof (cases "onRejected m err config")
    case GiveUp
    with Rejected show ?thesis by (subst apiClient.simps) simp
  next
    case (Retry config' d)
    then have "cfg_retry config'" by (simp add: onRejected_Retry)
    then have "snd (apiClient m t (Suc k) config') = []" by (rule apiClient_flagged)
    with Rejected Retry show ?thesis
      by (subst apiClient.simps) (simp add: case_prod_unfold)
  qed
qed

lemma apiClient_events:
  "\<forall>ev\<in>set (snd (apiClient m t k config)).
     (err_code (re_cause ev) = Some ''ECONNABORTED'' \<or> err_response (re_cause ev) = None) \<and>
     re_delay ev = 2 ^ re_number ev * 1000 \<and> 1 \<le> re_number ev \<and> re_number ev \<le> m \<and>
     t k = Rejected (re_cause ev)"
proof (cases "t k")
  case (Fulfilled r)
  then show ?thesis by (subst apiClient.simps) simp
next
  case (Rejected err)
  show ?thesis
  proof (cases "onRejected m err config")
    case GiveUp
    with Rejected show ?thesis by (subst apiClient.simps) simp
  next
    case (Retry config' d)
    note r = onRejected_Retry [OF Retry]
    then have "snd (apiClient m t (Suc k) config') = []" by (simp add: apiClient_flagged)
    with Rejected Retry r show ?thesis
      by (subst apiClient.simps) (auto simp: case_prod_unfold)
  qed
qed

text \<open>
  A request whose configuration carries no \<^verbatim>\<open>_retryCount\<close>, as every request
  the Python service client sends, is attempted once: the comparison of
  undefined with the maximum is false.
\<close>

lemma apiClient_newRequest: "apiClient m t 0 newRequest = (t 0, [])"
  by (subst apiClient.simps) (simp add: onRejected_def newRequest_def split: attempt.splits)

text \<open>
  C2. For every logical call of the client, whatever the attempts meet and
  whatever the configuration holds at the start: at most 3 attempts are made;
  the retry flag is set at most once; every retry follows a rejection that is a
  timeout (code ECONNABORTED) or has no response, never a rejection that
  carries the response of the remote service without that code; and the delay
  before the retry numbered \<open>n\<close> (the value \<^verbatim>\<open>_retryCount\<close> takes) is
  \<open>2 ^ n\<close> seconds, that is \<open>2 ^ n * 1000\<close> milliseconds.
\<close>

theorem apiClient_retry_policy:
  "attempts (apiClient m t k config) \<le> 3 \<and>
   length (snd (apiClient m t k config)) \<le> 1 \<and>
   (\<forall>ev\<in>set (snd (apiClient m t k config)).
      t k = Rejected (re_cause ev) \<and>
      (err_code (re_cause ev) = Some ''ECONNABORTED'' \<or> err_response (re_cause ev) = None) \<and>
      re_delay ev = 2 ^ re_number ev * 1000)"
  using apiClient_at_most_one_retry [of m t k config] apiClient_events [of m t k config]
  by (simp add: attempts_def)

theorem apiClient_retry_policy_witness:
  "snd (apiClient 3 (\<lambda>k. Rejected timeoutError) 0 countedRequest) =
     [\<lparr>re_cause = timeoutError, re_number = 1, re_delay = 2000\<rparr>] \<and>
   attempts (apiClient 3 (\<lambda>k. Rejected timeoutError) 0 countedRequest) = 2"
  using apiClient_retry_policy [of 3 "\<lambda>k. Rejected timeoutError" 0 countedRequest]
  by (simp add: apiClient.simps onRejected_def timeoutError_def attempts_def countedRequest_def)


section \<open>A search repeated within the lifetime of its entry\<close>

lemma cacheGet_after_cacheSet:
  assumes "t2 \<le> t1 + getCacheTTLForKey key * 1000"
  shows "cacheGet t2 key (snd (cacheSet t1 key (Some x) None c)) =
         (Some x, (snd (cacheSet t1 key (Some x) None c))
                    \<lparr>hits := hits c + 1\<rparr>)"
  using assms by (simp add: cacheGet_def cacheSet_def Let_def update_conv')

lemma hits_cacheSet [simp]: "hits (snd (cacheSet t k x ttl c)) = hits c"
  by (simp add: cacheSet_def Let_def split: option.splits)

lemma searchCacheKey_prefix: "\<exists>rest. searchCacheKey v = ''search:q:'' @ rest"
  by (simp add: searchCacheKey_def getSearchKey_def getSearchKeyWith_def Let_def)

lemma ttl_searchCacheKey: "getCacheTTLForKey (searchCacheKey v) = 300"
proof -
  obtain rest where "searchCacheKey v = ''search:q:'' @ rest"
    using searchCacheKey_prefix by blast
  then show ?thesis by (simp add: getCacheTTLForKey_def startsWith_def)
qed

lemma search_miss_success_cache:
  assumes "validate (body req) = Inr v"
    and "fst (cacheGet (now e) (searchCacheKey v) (cache w)) = None"
    and "fst (search e req w) = Paginated d p l n msg"
  shows "cache (snd (search e req w)) =
     snd (cacheSet (now e) (searchCacheKey v)
       (Some \<lparr>sr_data = d, sr_page = p, sr_limit = l, sr_total = n\<rparr>) None
       (cache (afterLookup e v w)))"
  using assms
  by (auto simp: search_def Let_def internalError_def afterLookup_def
      split: sum.splits prod.splits if_splits)

lemma search_same_key_second_call_hits:
  assumes v1: "validate (body req1) = Inr v1" and v2: "validate (body req2) = Inr v2"
    and key: "searchCacheKey v1 = searchCacheKey v2"
    and miss: "fst (cacheGet (now e1) (searchCacheKey v1) (cache w)) = None"
    and ok: "fst (search e1 req1 w) = Paginated d p l n msg"
    and time: "now e2 \<le> now e1 + 300000"
  shows "fst (search e2 req2 (snd (search e1 req1 w))) =
           Paginated d p l n ''Resultados de busqueda obtenidos de cache'' \<and>
         hits (cache (snd (search e2 req2 (snd (search e1 req1 w))))) =
           hits (cache (snd (search e1 req1 w))) + 1"
proof -
  let ?w1 = "snd (search e1 req1 w)"
  let ?r = "\<lparr>sr_data = d, sr_page = p, sr_limit = l, sr_total = n\<rparr>"
  note c1 = search_miss_success_cache [OF v1 miss ok]
  have g: "cacheGet (now e2) (searchCacheKey v2) (cache ?w1) =
      (Some ?r, (cache ?w1)\<lparr>hits := hits (cache ?w1) + 1\<rparr>)"
    unfolding c1 key [symmetric]
    by (subst cacheGet_after_cacheSet) (simp_all add: ttl_searchCacheKey time)
  then have "fst (cacheGet (now e2) (searchCacheKey v2) (cache ?w1)) = Some ?r" by simp
  from search_hit [OF v2 this] g show ?thesis by (simp add: afterLookup_def)
qed

lemma getSearchKey_normalized:
  "normalizeQuery q1 = normalizeQuery q2 \<Longrightarrow> getSearchKey q1 f = getSearchKey q2 f"
  by (simp add: getSearchKey_def getSearchKeyWith_def)

lemma normalize_plumber:
  "normalizeQuery ''plumber '' = ''plumber''" "normalizeQuery ''PLUMBER'' = ''plumber''"
  by (simp_all add: normalizeQuery_def trim_def toLowerCase_def lowerChar_def isSpace_def)

lemma validate_plumberPage:
  "2 \<le> length q \<Longrightarrow> length q \<le> 100 \<Longrightarrow> 1 \<le> pg \<Longrightarrow> 1 \<le> lm \<Longrightarrow> lm \<le> 50 \<Longrightarrow>
   validate (plumberPage q loc pg lm) = Inr (plumberValueAt q loc pg lm)"
  by (simp add: validate_def plumberPage_def plumberBody_def plumberValueAt_def plumberValue_def
      stringOrEmpty_def priceOk_def)

lemma plumber_keys_agree:
  "searchCacheKey (plumberValueAt ''plumber '' loc pg lm) =
   searchCacheKey (plumberValueAt ''PLUMBER'' loc pg lm)"
  by (simp add: searchCacheKey_def plumberValueAt_def plumberValue_def
      getSearchKey_normalized [of "''plumber ''" "''PLUMBER''"] normalize_plumber)

lemma key_Austin: "searchCacheKey (plumberValue ''plumber '' ''Austin'') =
    ''search:q:plumber:filters:limit:20|location:Austin|page:1''"
  by code_simp

lemma key_austin: "searchCacheKey (plumberValue ''PLUMBER'' ''austin'') =
    ''search:q:plumber:filters:limit:20|location:austin|page:1''"
  by code_simp

lemma transform_fiveLocal: "map transform fiveLocal = fiveLocal"
  by (simp add: fiveLocal_def transform_def mkService_def)

text \<open>
  C4, as the claim states it, fails: the values of the filters enter the key as
  they are written, so \<open>location:Austin\<close> and \<open>location:austin\<close> give two keys.
  The second search misses the cache: after both calls the hit counter is 0 and
  the miss counter 2.
\<close>

theorem plumber_filter_case_misses_cache:
  "searchCacheKey (plumberValue ''plumber '' ''Austin'') =
     ''search:q:plumber:filters:limit:20|location:Austin|page:1'' \<and>
   searchCacheKey (plumberValue ''PLUMBER'' ''austin'') =
     ''search:q:plumber:filters:limit:20|location:austin|page:1'' \<and>
   fst (search (quietEnv 1000 fiveLocal 5 noResults)
          \<lparr>body = plumberBody ''plumber '' ''Austin'', user = None\<rparr> emptyWorld) =
     Paginated fiveLocal 1 20 5 ''Resultados de busqueda obtenidos correctamente'' \<and>
   hits (cache (snd (search (quietEnv 2000 fiveLocal 5 noResults)
          \<lparr>body = plumberBody ''PLUMBER'' ''austin'', user = None\<rparr>
          (snd (search (quietEnv 1000 fiveLocal 5 noResults)
                 \<lparr>body = plumberBody ''plumber '' ''Austin'', user = None\<rparr> emptyWorld))))) = 0 \<and>
   misses (cache (snd (search (quietEnv 2000 fiveLocal 5 noResults)
          \<lparr>body = plumberBody ''PLUMBER'' ''austin'', user = None\<rparr>
          (snd (search (quietEnv 1000 fiveLocal 5 noResults)
                 \<lparr>body = plumberBody ''plumber '' ''Austin'', user = None\<rparr> emptyWorld))))) = 2"
proof -
  let ?req1 = "\<lparr>body = plumberBody ''plumber '' ''Austin'', user = None\<rparr>"
  let ?req2 = "\<lparr>body = plumberBody ''PLUMBER'' ''austin'', user = None\<rparr>"
  let ?v1 = "plumberValue ''plumber '' ''Austin''"
  let ?v2 = "plumberValue ''PLUMBER'' ''austin''"
  let ?e1 = "quietEnv 1000 fiveLocal 5 noResults"
  let ?e2 = "quietEnv 2000 fiveLocal 5 noResults"
  let ?w1 = "snd (search ?e1 ?req1 emptyWorld)"
  have v1: "validate (body ?req1) = Inr ?v1" by (simp add: validate_plumberBody)
  have v2: "validate (body ?req2) = Inr ?v2" by (simp add: validate_plumberBody)
  have miss1: "fst (cacheGet (now ?e1) (searchCacheKey ?v1) (cache emptyWorld)) = None"
    by (simp add: emptyWorld_def cacheGet_emptyCache)
  have f1: "findServices ?e1 (searchQuery ?v1 (user ?req1)) = Inr (fiveLocal, 5)"
    by (simp add: quietEnv_def)
  have f2: "findServices ?e2 (searchQuery ?v2 (user ?req2)) = Inr (fiveLocal, 5)"
    by (simp add: quietEnv_def)
  have l: "5 \<le> length fiveLocal \<or> (10::nat) \<le> 5" by (simp add: fiveLocal_def)
  note first = search_local_enough [OF v1 miss1 f1 l]
  have c1: "cache ?w1 =
      \<lparr>store = [(''search:q:plumber:filters:limit:20|location:Austin|page:1'',
                 \<lparr>ce_value = \<lparr>sr_data = fiveLocal, sr_page = 1, sr_limit = 20, sr_total = 5\<rparr>,
                  ce_expires = 301000\<rparr>)],
       hits = 0, misses = 1, sets = 1\<rparr>"
    by (simp add: first transform_fiveLocal key_Austin)
      (simp add: cacheSet_def afterLookup_def cacheGet_def emptyWorld_def emptyCache_def
        quietEnv_def plumberValue_def getCacheTTLForKey_def startsWith_def)
  have miss2: "fst (cacheGet (now ?e2) (searchCacheKey ?v2) (cache ?w1)) = None"
    unfolding c1 key_austin by (simp add: cacheGet_def)
  note second = search_local_enough [OF v2 miss2 f2 l]
  have r1: "fst (search ?e1 ?req1 emptyWorld) =
      Paginated fiveLocal 1 20 5 ''Resultados de busqueda obtenidos correctamente''"
    by (simp add: first transform_fiveLocal plumberValue_def)
  have h: "hits (cache (snd (search ?e2 ?req2 ?w1))) = 0"
    unfolding second by (simp add: afterLookup_def c1 key_austin cacheGet_def)
  have m: "misses (cache (snd (search ?e2 ?req2 ?w1))) = 2"
    unfolding second by (simp add: afterLookup_def c1 key_austin cacheGet_def cacheSet_def)
  show ?thesis using key_Austin key_austin r1 h m by simp
qed

text \<open>
  C4, amended. A search for the query \<open>plumber \<close> with the filter
  \<open>location: Austin\<close> followed by a search for the query \<open>PLUMBER\<close> with the
  same filter value \<open>Austin\<close>, at the same page and limit, computes the same
  key both times. When the first search misses the cache and answers
  successfully, and the second comes within the 300 seconds the entry lives,
  the second is served from the entry the first wrote and the hit counter goes
  up by exactly 1.
\<close>

theorem plumber_same_filter_second_search_hits:
  assumes "1 \<le> pg" and "1 \<le> lm" and "lm \<le> 50"
    and "fst (cacheGet (now e1)
            (searchCacheKey (plumberValueAt ''plumber '' ''Austin'' pg lm)) (cache w)) = None"
    and "fst (search e1 \<lparr>body = plumberPage ''plumber '' ''Austin'' pg lm, user = u1\<rparr> w) =
           Paginated d p l n msg"
    and "now e2 \<le> now e1 + 300000"
  shows "searchCacheKey (plumberValueAt ''plumber '' ''Austin'' pg lm) =
           searchCacheKey (plumberValueAt ''PLUMBER'' ''Austin'' pg lm) \<and>
         fst (search e2 \<lparr>body = plumberPage ''PLUMBER'' ''Austin'' pg lm, user = u2\<rparr>
                (snd (search e1 \<lparr>body = plumberPage ''plumber '' ''Austin'' pg lm, user = u1\<rparr> w))) =
           Paginated d p l n ''Resultados de busqueda obtenidos de cache'' \<and>
         hits (cache (snd (search e2 \<lparr>body = plumberPage ''PLUMBER'' ''Austin'' pg lm, user = u2\<rparr>
                (snd (search e1 \<lparr>body = plumberPage ''plumber '' ''Austin'' pg lm, user = u1\<rparr> w))))) =
           hits (cache (snd (search e1 \<lparr>body = plumberPage ''plumber '' ''Austin'' pg lm, user = u1\<rparr> w))) + 1"
proof -
  let ?req1 = "\<lparr>body = plumberPage ''plumber '' ''Austin'' pg lm, user = u1\<rparr>"
  let ?req2 = "\<lparr>body = plumberPage ''PLUMBER'' ''Austin'' pg lm, user = u2\<rparr>"
  have v1: "validate (body ?req1) = Inr (plumberValueAt ''plumber '' ''Austin'' pg lm)"
    using assms(1-3) by (simp add: validate_plumberPage)
  have v2: "validate (body ?req2) = Inr (plumberValueAt ''PLUMBER'' ''Austin'' pg lm)"
    using assms(1-3) by (simp add: validate_plumberPage)
  from search_same_key_second_call_hits [OF v1 v2 plumber_keys_agree assms(4) assms(5) assms(6)]
    plumber_keys_agree [of "''Austin''" pg lm]
  show ?thesis by simp
qed

theorem plumber_same_filter_second_search_hits_witness:
  "fst (search (quietEnv 2000 fiveLocal 5 noResults)
          \<lparr>body = plumberPage ''PLUMBER'' ''Austin'' 1 20, user = None\<rparr>
          (snd (search (quietEnv 1000 fiveLocal 5 noResults)
                 \<lparr>body = plumberPage ''plumber '' ''Austin'' 1 20, user = None\<rparr> emptyWorld))) =
     Paginated fiveLocal 1 20 5 ''Resultados de busqueda obtenidos de cache'' \<and>
   hits (cache (snd (search (quietEnv 2000 fiveLocal 5 noResults)
          \<lparr>body = plumberPage ''PLUMBER'' ''Austin'' 1 20, user = None\<rparr>
          (snd (search (quietEnv 1000 fiveLocal 5 noResults)
                 \<lparr>body = plumberPage ''plumber '' ''Austin'' 1 20, user = None\<rparr> emptyWorld))))) = 1"
proof -
  let ?req1 = "\<lparr>body = plumberPage ''plumber '' ''Austin'' 1 20, user = None\<rparr>"
  let ?v1 = "plumberValueAt ''plumber '' ''Austin'' 1 20"
  let ?e1 = "quietEnv 1000 fiveLocal 5 noResults"
  let ?e2 = "quietEnv 2000 fiveLocal 5 noResults"
  have v1: "validate (body ?req1) = Inr ?v1" by (simp add: validate_plumberPage)
  have miss1: "fst (cacheGet (now ?e1) (searchCacheKey ?v1) (cache emptyWorld)) = None"
    by (simp add: emptyWorld_def cacheGet_emptyCache)
  have f1: "findServices ?e1 (searchQuery ?v1 (user ?req1)) = Inr (fiveLocal, 5)"
    by (simp add: quietEnv_def)
  have l: "5 \<le> length fiveLocal \<or> (10::nat) \<le> 5" by (simp add: fiveLocal_def)
  note first = search_local_enough [OF v1 miss1 f1 l]
  have r1: "fst (search ?e1 ?req1 emptyWorld) =
      Paginated fiveLocal 1 20 5 ''Resultados de busqueda obtenidos correctamente''"
    by (simp add: first transform_fiveLocal plumberValueAt_def)
  have h1: "hits (cache (snd (search ?e1 ?req1 emptyWorld))) = 0"
    unfolding first by (simp add: afterLookup_def cacheGet_def emptyWorld_def emptyCache_def)
  have t: "now ?e2 \<le> now ?e1 + 300000" by (simp add: quietEnv_def)
  have p: "(1::int) \<le> 1" "(1::int) \<le> 20" "(20::int) \<le> 50" by simp_all
  from plumber_same_filter_second_search_hits [OF p miss1 r1 t, of None] h1
  show ?thesis by simp
qed

section \<open>The history of recent searches\<close>

lemma addRecentSearch_bounded: "length (recentSearches (addRecentSearch q t u)) \<le> 10"
  by (simp add: addRecentSearch_def Let_def)

lemma addRecentSearch_first:
  "hd (recentSearches (addRecentSearch q t u)) = \<lparr>rs_query = q, rs_timestamp = t\<rparr>"
  by (simp add: addRecentSearch_def Let_def)

text \<open>
  The three paths that compute a result register the search of an
  authenticated user whose document is found and saved.
\<close>

lemma respond_registers_search:
  assumes "user req = Some usr" and "u_id usr \<noteq> []"
    and "findUserError e = None" and "saveUserError e = None"
    and "users w (u_id usr) = Some doc"
  shows "users (snd (respond e req v key xs n msg w)) (u_id usr) =
           Some (addRecentSearch (v_query v) (now e) doc)"
  using assms by (simp add: recordSearch_def)

text \<open>
  C9. The claim: every successful search of an authenticated caller puts the
  query first in the caller's history. The code does otherwise on the cache
  hit path, which returns before the history is touched: the user u1 searches
  for \<open>plumber\<close> at time 1000 and again at time 2000; the second search is
  answered successfully from the cache, and the history holds one entry, that
  of time 1000.
\<close>

theorem search_cache_hit_skips_history:
  "fst (search (quietEnv 2000 fiveLocal 5 noResults)
        \<lparr>body = plumberBody ''plumber'' ''Austin'', user = Some alice\<rparr>
        (snd (search (quietEnv 1000 fiveLocal 5 noResults)
               \<lparr>body = plumberBody ''plumber'' ''Austin'', user = Some alice\<rparr> aliceWorld))) =
     Paginated fiveLocal 1 20 5 ''Resultados de busqueda obtenidos de cache'' \<and>
   map_option recentSearches
     (users (snd (search (quietEnv 2000 fiveLocal 5 noResults)
        \<lparr>body = plumberBody ''plumber'' ''Austin'', user = Some alice\<rparr>
        (snd (search (quietEnv 1000 fiveLocal 5 noResults)
               \<lparr>body = plumberBody ''plumber'' ''Austin'', user = Some alice\<rparr> aliceWorld))))
       ''u1'') =
     Some [\<lparr>rs_query = ''plumber'', rs_timestamp = 1000\<rparr>]"
proof -
  let ?req = "\<lparr>body = plumberBody ''plumber'' ''Austin'', user = Some alice\<rparr>"
  let ?v = "plumberValue ''plumber'' ''Austin''"
  let ?e1 = "quietEnv 1000 fiveLocal 5 noResults"
  let ?e2 = "quietEnv 2000 fiveLocal 5 noResults"
  let ?w1 = "snd (search ?e1 ?req aliceWorld)"
  have v: "validate (body ?req) = Inr ?v" by (simp add: validate_plumberBody)
  have miss: "fst (cacheGet (now ?e1) (searchCacheKey ?v) (cache aliceWorld)) = None"
    by (simp add: aliceWorld_def emptyWorld_def cacheGet_emptyCache)
  have f: "findServices ?e1 (searchQuery ?v (user ?req)) = Inr (fiveLocal, 5)"
    by (simp add: quietEnv_def)
  have l: "5 \<le> length fiveLocal \<or> (10::nat) \<le> 5" by (simp add: fiveLocal_def)
  note first = search_local_enough [OF v miss f l]
  have c1: "cache ?w1 = snd (cacheSet 1000 (searchCacheKey ?v)
      (Some \<lparr>sr_data = fiveLocal, sr_page = 1, sr_limit = 20, sr_total = 5\<rparr>) None
      (cache (afterLookup ?e1 ?v aliceWorld)))"
    by (simp add: first transform_fiveLocal) (simp add: quietEnv_def plumberValue_def)
  have u1: "users ?w1 ''u1'' =
      Some \<lparr>recentSearches = [\<lparr>rs_query = ''plumber'', rs_timestamp = 1000\<rparr>]\<rparr>"
    by (simp add: first) (simp add: recordSearch_def alice_def quietEnv_def afterLookup_def
        aliceWorld_def addRecentSearch_def plumberValue_def)
  have hit: "fst (cacheGet (now ?e2) (searchCacheKey ?v) (cache ?w1)) =
      Some \<lparr>sr_data = fiveLocal, sr_page = 1, sr_limit = 20, sr_total = 5\<rparr>"
    unfolding c1 by (subst cacheGet_after_cacheSet) (simp_all add: ttl_searchCacheKey quietEnv_def)
  note second = search_hit [OF v hit]
  show ?thesis
    by (simp add: second afterLookup_def u1)
qed


section \<open>Redaction of premium contacts\<close>

lemma redacted_transform [simp]: "redacted (transform s)"
  by (simp add: redacted_def transform_def)

lemma list_all_redacted_transform [simp]: "list_all redacted (map transform xs)"
  by (simp add: list_all_iff)

lemma set_update_subset: "set (AList.update k v al) \<subseteq> insert (k, v) (set al)"
  by (induction al) auto

lemma cacheRedacted_set:
  "cacheRedacted c \<Longrightarrow> list_all redacted (sr_data r) \<Longrightarrow>
   cacheRedacted (snd (cacheSet t k (Some r) ttl c))"
  using set_update_subset [of k _ "store c"]
  by (fastforce simp: cacheRedacted_def cacheSet_def Let_def list_all_iff)

lemma cacheRedacted_get:
  "cacheRedacted c \<Longrightarrow> cacheRedacted (snd (cacheGet t k c))"
  by (auto simp: cacheRedacted_def cacheGet_def nodeDel_def list_all_iff AList.delete_eq
      split: option.splits)

lemma cacheGet_redacted:
  "cacheRedacted c \<Longrightarrow> fst (cacheGet t k c) = Some r \<Longrightarrow> list_all redacted (sr_data r)"
  by (auto simp: cacheRedacted_def cacheGet_def list_all_iff
      split: option.splits if_splits dest!: map_of_SomeD)

lemma respond_redacted:
  "cacheRedacted (cache w) \<Longrightarrow>
   responseRedacted (fst (respond e req v key (map transform xs) n msg w)) \<and>
   cacheRedacted (cache (snd (respond e req v key (map transform xs) n msg w)))"
  by (simp add: responseRedacted_def cacheRedacted_set)

lemma search_redacted:
  assumes "cacheRedacted (cache w)"
  shows "responseRedacted (fst (search e req w)) \<and> cacheRedacted (cache (snd (search e req w)))"
proof (cases "validate (body req)")
  case (Inl err)
  then show ?thesis using assms by (simp add: search_invalid responseRedacted_def)
next
  case (Inr v)
  let ?w1 = "afterLookup e v w"
  have w1: "cacheRedacted (cache ?w1)" "cacheRedacted (cache (called ?w1))"
    using assms by (simp_all add: afterLookup_def called_def cacheRedacted_get)
  show ?thesis
  proof (cases "fst (cacheGet (now e) (searchCacheKey v) (cache w))")
    case (Some r)
    from cacheGet_redacted [OF assms Some] w1 show ?thesis
      by (simp add: search_hit [OF Inr Some] responseRedacted_def)
  next
    case None
    show ?thesis
    proof (cases "findServices e (searchQuery v (user req))")
      case (Inl err)
      with w1 show ?thesis
        by (simp add: search_store_failed [OF Inr None Inl] responseRedacted_def internalError_def)
    next
      case (Inr found)
      obtain services n where found: "found = (services, n)" by (cases found)
      note f = Inr [unfolded found]
      show ?thesis
      proof (cases "length services \<ge> 5 \<or> n \<ge> 10")
        case True
        show ?thesis
          unfolding search_local_enough [OF \<open>validate (body req) = Inr v\<close> None f True]
          by (rule respond_redacted) (rule w1(1))
      next
        case False
        then have small: "length services < 5" "n < 10" by simp_all
        show ?thesis
        proof (cases "customSearch (maxRetries e) (transport e)")
          case (Inl err)
          with w1 show ?thesis
            by (simp add: search_remote_failed [OF \<open>validate (body req) = Inr v\<close> None f small Inl]
                responseRedacted_def internalError_def)
        next
          case (Inr py)
          show ?thesis
          proof (cases "py_success py \<and> py_results py \<noteq> []")
            case True
            then have t: "py_success py" "py_results py \<noteq> []" by simp_all
            show ?thesis
              unfolding search_remote_merged [OF \<open>validate (body req) = Inr v\<close> None f small Inr t]
              by (rule respond_redacted) (rule w1(2))
          next
            case False
            then have t: "\<not> py_success py \<or> py_results py = []" by simp
            show ?thesis
              unfolding search_remote_empty [OF \<open>validate (body req) = Inr v\<close> None f small Inr t]
              by (rule respond_redacted) (rule w1(2))
          qed
        qed
      qed
    qed
  qed
qed

text \<open>
  C8. Starting from a cache whose entries are redacted (the empty cache is),
  every answer of every search of a sequence, on the cache-miss paths and on
  the cache-hit path alike and whoever the caller is (none, unverified, or
  verified), carries the fixed sentinel in place of the contact of each record
  flagged premiumOnly; and the cache holds redacted records only, since the
  records are transformed before the result set is written to it.
\<close>

theorem searches_never_expose_premium_contact:
  assumes "cacheRedacted (cache w)"
  shows "list_all responseRedacted (fst (searches steps w)) \<and>
         cacheRedacted (cache (snd (searches steps w)))"
  using assms
proof (induction steps arbitrary: w)
  case Nil
  then show ?case by simp
next
  case (Cons step rest)
  from search_redacted [OF Cons.prems, of "fst step" "snd step"]
  have 1: "responseRedacted (fst (search (fst step) (snd step) w))"
    and 2: "cacheRedacted (cache (snd (search (fst step) (snd step) w)))" by simp_all
  from Cons.IH [OF 2] 1 show ?case by (simp add: case_prod_unfold)
qed

text \<open>
  The verified user u1 searches at time 1000 (cache miss, two local records,
  the second one premium, no remote record); an anonymous caller repeats the
  search at time 2000 and is served from the cache. Both answers carry the
  sentinel in place of the contact of the premium record.
\<close>

lemma premium_contact_on_both_paths:
  "map (\<lambda>r. map s_contactInfo (responseData r))
     (fst (searches
        [(quietEnv 1000 twoLocal 2 noResults,
          \<lparr>body = plumberBody ''plumber'' ''Austin'', user = Some alice\<rparr>),
         (quietEnv 2000 [] 0 noResults, anonymous (plumberBody ''plumber'' ''Austin''))]
        aliceWorld)) =
     [[''555-0100'', sentinel], [''555-0100'', sentinel]]"
proof -
  let ?req = "\<lparr>body = plumberBody ''plumber'' ''Austin'', user = Some alice\<rparr>"
  let ?anon = "anonymous (plumberBody ''plumber'' ''Austin'')"
  let ?v = "plumberValue ''plumber'' ''Austin''"
  let ?e1 = "quietEnv 1000 twoLocal 2 noResults"
  let ?e2 = "quietEnv 2000 [] 0 noResults"
  let ?w1 = "snd (search ?e1 ?req aliceWorld)"
  let ?r = "\<lparr>sr_data = map transform twoLocal, sr_page = v_page ?v, sr_limit = v_limit ?v, sr_total = 2\<rparr>"
  have v: "validate (body ?req) = Inr ?v" "validate (body ?anon) = Inr ?v"
    by (simp_all add: validate_plumberBody anonymous_def)
  have miss: "fst (cacheGet (now ?e1) (searchCacheKey ?v) (cache aliceWorld)) = None"
    by (simp add: aliceWorld_def emptyWorld_def cacheGet_emptyCache)
  have f: "findServices ?e1 (searchQuery ?v (user ?req)) = Inr (twoLocal, 2)"
    by (simp add: quietEnv_def)
  have s: "length twoLocal < 5" "(2::nat) < 10" by (simp_all add: twoLocal_def)
  have c: "customSearch (maxRetries ?e1) (transport ?e1) = Inr \<lparr>py_success = True, py_results = []\<rparr>"
    by (simp add: quietEnv_def customSearch_noResults)
  have e: "\<not> py_success \<lparr>py_success = True, py_results = []\<rparr> \<or>
      py_results \<lparr>py_success = True, py_results = []\<rparr> = []" by simp
  note first = search_remote_empty [OF v(1) miss f s c e]
  have r1: "fst (search ?e1 ?req aliceWorld) =
      Paginated (map transform twoLocal) (v_page ?v) (v_limit ?v) 2
        ''Resultados de busqueda obtenidos correctamente''"
    unfolding first by simp
  have c1: "cache ?w1 = snd (cacheSet (now ?e1) (searchCacheKey ?v) (Some ?r) None
      (cache (called (afterLookup ?e1 ?v aliceWorld))))"
    unfolding first by simp
  have hit: "fst (cacheGet (now ?e2) (searchCacheKey ?v) (cache ?w1)) = Some ?r"
    unfolding c1 by (subst cacheGet_after_cacheSet) (simp_all add: ttl_searchCacheKey quietEnv_def)
  note second = search_hit [OF v(2) hit]
  have d: "map (s_contactInfo \<circ> transform) twoLocal = [''555-0100'', sentinel]"
    by (simp add: twoLocal_def transform_def mkService_def)
  show ?thesis
    by (simp add: case_prod_unfold r1 second responseData_def d)
qed

theorem searches_never_expose_premium_contact_witness:
  "map (\<lambda>r. map s_contactInfo (responseData r))
     (fst (searches
        [(quietEnv 1000 twoLocal 2 noResults,
          \<lparr>body = plumberBody ''plumber'' ''Austin'', user = Some alice\<rparr>),
         (quietEnv 2000 [] 0 noResults, anonymous (plumberBody ''plumber'' ''Austin''))]
        aliceWorld)) =
     [[''555-0100'', sentinel], [''555-0100'', sentinel]] \<and>
   list_all responseRedacted
     (fst (searches
        [(quietEnv 1000 twoLocal 2 noResults,
          \<lparr>body = plumberBody ''plumber'' ''Austin'', user = Some alice\<rparr>),
         (quietEnv 2000 [] 0 noResults, anonymous (plumberBody ''plumber'' ''Austin''))]
        aliceWorld)) \<and>
   cacheRedacted (cache (snd (searches
        [(quietEnv 1000 twoLocal 2 noResults,
          \<lparr>body = plumberBody ''plumber'' ''Austin'', user = Some alice\<rparr>),
         (quietEnv 2000 [] 0 noResults, anonymous (plumberBody ''plumber'' ''Austin''))]
        aliceWorld)))"
proof -
  have "cacheRedacted (cache aliceWorld)"
    by (simp add: aliceWorld_def emptyWorld_def emptyCache_def cacheRedacted_def)
  from searches_never_expose_premium_contact [OF this] premium_contact_on_both_paths
  show ?thesis by blast
qed

section \<open>Page and limit in the search key\<close>

lemma lt10_cases: "d < 10 \<Longrightarrow> d \<in> {0, 1, 2, 3, 4, 5, 6, 7, 8, 9::nat}"
  by auto

lemma digitValue_digitChar: "d < 10 \<Longrightarrow> digitValue (digitChar d) = d"
  by (drule lt10_cases) (auto simp: digitValue_def digitChar_def)

lemma isDigit_digitChar: "d < 10 \<Longrightarrow> isDigit (digitChar d)"
  by (drule lt10_cases) (auto simp: isDigit_def digitChar_def)

lemma readNat_snoc: "readNat (s @ [c]) = 10 * readNat s + digitValue c"
  by (simp add: readNat_def)

lemma readNat_showNat: "readNat (showNat n) = n"
proof (induction n rule: showNat.induct)
  case (1 n)
  show ?case
  proof (cases "n < 10")
    case True
    then show ?thesis by (subst showNat.simps) (simp add: readNat_def digitValue_digitChar)
  next
    case False
    with 1 have "readNat (showNat (n div 10)) = n div 10" by simp
    with False show ?thesis
      by (subst showNat.simps) (simp add: readNat_snoc digitValue_digitChar)
  qed
qed

lemma showNat_inj: "showNat a = showNat b \<Longrightarrow> a = b"
  by (metis readNat_showNat)

lemma showNat_digits: "\<forall>c\<in>set (showNat n). isDigit c"
proof (induction n rule: showNat.induct)
  case (1 n)
  show ?case
  proof (cases "n < 10")
    case True
    then show ?thesis by (subst showNat.simps) (simp add: isDigit_digitChar)
  next
    case False
    with 1 show ?thesis by (subst showNat.simps) (simp add: isDigit_digitChar)
  qed
qed

lemma digits_then_bar:
  assumes "showNat a @ CHR ''|'' # r = showNat b @ CHR ''|'' # s"
  shows "a = b \<and> r = s"
proof -
  have bar: "\<not> isDigit CHR ''|''" by (simp add: isDigit_def)
  have "takeWhile isDigit (showNat n @ CHR ''|'' # t) = showNat n" for n t
    using showNat_digits [of n] bar by (simp add: takeWhile_tail)
  with assms have "showNat a = showNat b" by metis
  with assms showNat_inj show ?thesis by auto
qed

lemma searchCacheKey_shape:
  assumes "1 \<le> v_page v" and "1 \<le> v_limit v"
  shows "searchCacheKey v =
     keyHead v @ showNat (nat (v_limit v)) @ CHR ''|'' # keyMid v @
     showNat (nat (v_page v)) @ keyTail v"
proof -
  have n: "\<not> v_page v < 0" "\<not> v_limit v < 0" using assms by simp_all
  show ?thesis
    by (cases "retained (''category'', v_category v)";
        cases "retained (''location'', v_location v)";
        cases "retained (''price'', v_price v)")
      (simp_all add: searchCacheKey_def getSearchKey_def getSearchKeyWith_def Let_def
        keyHead_def keyMid_def keyTail_def retained_def n)
qed

lemma validate_bounds:
  "validate b = Inr v \<Longrightarrow> 1 \<le> v_page v \<and> 1 \<le> v_limit v \<and> v_limit v \<le> 50"
  by (auto simp: validate_def Let_def split: option.splits if_splits)

lemma cacheGet_other_key:
  "k1 \<noteq> k2 \<Longrightarrow> fst (cacheGet t k2 (snd (cacheSet t' k1 x ttl c))) = fst (cacheGet t k2 c)"
  by (cases x; cases "map_of (store c) k2")
    (simp_all add: cacheGet_def cacheSet_def Let_def update_conv')

text \<open>
  C10. The controller puts page and limit into the filters of the key (line
  44). Two requests that pass validation and agree on query, category,
  location and price but differ in page or in limit get different keys; so
  what one of them writes to the cache is not what the other reads.
\<close>

theorem searchCacheKey_separates_pages:
  assumes "validate (body req1) = Inr v1" and "validate (body req2) = Inr v2"
    and "v_query v1 = v_query v2" and "v_category v1 = v_category v2"
    and "v_location v1 = v_location v2" and "v_price v1 = v_price v2"
    and "v_page v1 \<noteq> v_page v2 \<or> v_limit v1 \<noteq> v_limit v2"
  shows "searchCacheKey v1 \<noteq> searchCacheKey v2 \<and>
         fst (cacheGet t (searchCacheKey v2)
                (snd (cacheSet t' (searchCacheKey v1) x ttl c))) =
           fst (cacheGet t (searchCacheKey v2) c)"
proof -
  from assms(1) have b1: "1 \<le> v_page v1" "1 \<le> v_limit v1" by (auto dest: validate_bounds)
  from assms(2) have b2: "1 \<le> v_page v2" "1 \<le> v_limit v2" by (auto dest: validate_bounds)
  have same: "keyHead v1 = keyHead v2" "keyMid v1 = keyMid v2" "keyTail v1 = keyTail v2"
    using assms(3-6) by (simp_all add: keyHead_def keyMid_def keyTail_def)
  have "searchCacheKey v1 \<noteq> searchCacheKey v2"
  proof
    assume "searchCacheKey v1 = searchCacheKey v2"
    then have "showNat (nat (v_limit v1)) @ CHR ''|'' # (keyMid v2 @ showNat (nat (v_page v1)) @ keyTail v2) =
        showNat (nat (v_limit v2)) @ CHR ''|'' # (keyMid v2 @ showNat (nat (v_page v2)) @ keyTail v2)"
      by (simp add: searchCacheKey_shape b1 b2 same)
    then have "nat (v_limit v1) = nat (v_limit v2)" and "showNat (nat (v_page v1)) = showNat (nat (v_page v2))"
      by (auto dest: digits_then_bar)
    then have "v_limit v1 = v_limit v2" and "v_page v1 = v_page v2"
      using b1 b2 by (auto dest: showNat_inj)
    with assms(7) show False by simp
  qed
  then show ?thesis by (simp add: cacheGet_other_key)
qed

theorem searchCacheKey_separates_pages_witness:
  "searchCacheKey (plumberValueAt ''plumber'' ''Austin'' 1 20) \<noteq>
   searchCacheKey (plumberValueAt ''plumber'' ''Austin'' 2 20)"
proof -
  have 1: "validate (body (anonymous (plumberPage ''plumber'' ''Austin'' 1 20))) =
      Inr (plumberValueAt ''plumber'' ''Austin'' 1 20)"
    by (simp add: anonymous_def validate_plumberPage)
  have 2: "validate (body (anonymous (plumberPage ''plumber'' ''Austin'' 2 20))) =
      Inr (plumberValueAt ''plumber'' ''Austin'' 2 20)"
    by (simp add: anonymous_def validate_plumberPage)
  have 3: "v_query (plumberValueAt ''plumber'' ''Austin'' 1 20) =
      v_query (plumberValueAt ''plumber'' ''Austin'' 2 20)"
    and 4: "v_category (plumberValueAt ''plumber'' ''Austin'' 1 20) =
      v_category (plumberValueAt ''plumber'' ''Austin'' 2 20)"
    and 5: "v_location (plumberValueAt ''plumber'' ''Austin'' 1 20) =
      v_location (plumberValueAt ''plumber'' ''Austin'' 2 20)"
    and 6: "v_price (plumberValueAt ''plumber'' ''Austin'' 1 20) =
      v_price (plumberValueAt ''plumber'' ''Austin'' 2 20)"
    and 7: "v_page (plumberValueAt ''plumber'' ''Austin'' 1 20) \<noteq>
      v_page (plumberValueAt ''plumber'' ''Austin'' 2 20) \<or>
      v_limit (plumberValueAt ''plumber'' ''Austin'' 1 20) \<noteq>
      v_limit (plumberValueAt ''plumber'' ''Austin'' 2 20)"
    by (simp_all add: plumberValueAt_def plumberValue_def)
  from searchCacheKey_separates_pages [OF 1 2 3 4 5 6 7] show ?thesis by (rule conjunct1)
qed


section \<open>Sorting with a comparator\<close>

lemma set_insertBy [simp]: "set (insertBy cmp x xs) = insert x (set xs)"
  by (induction xs) auto

lemma set_sortBy [simp]: "set (sortBy cmp xs) = set xs"
  by (induction xs) auto

lemma length_insertBy [simp]: "length (insertBy cmp x xs) = Suc (length xs)"
  by (induction xs) auto

lemma length_sortBy [simp]: "length (sortBy cmp xs) = length xs"
  by (induction xs) auto

lemma distinct_insertBy [simp]: "distinct (insertBy cmp x xs) = (x \<notin> set xs \<and> distinct xs)"
  by (induction xs) auto

lemma distinct_sortBy [simp]: "distinct (sortBy cmp xs) = distinct xs"
  by (induction xs) auto

lemma map_insertBy:
  "(\<And>a b. cmp' (f a) (f b) = cmp a b) \<Longrightarrow> map f (insertBy cmp x xs) = insertBy cmp' (f x) (map f xs)"
  by (induction xs) auto

lemma sorted_insertBy:
  assumes total: "\<And>a b. a \<in> S \<Longrightarrow> b \<in> S \<Longrightarrow> cmp a b \<le> 0 \<or> cmp b a \<le> 0"
    and trans: "\<And>a b c. a \<in> S \<Longrightarrow> b \<in> S \<Longrightarrow> c \<in> S \<Longrightarrow>
                  cmp a b \<le> 0 \<Longrightarrow> cmp b c \<le> 0 \<Longrightarrow> cmp a c \<le> 0"
    and "x \<in> S" and "set ys \<subseteq> S" and "sorted_wrt (\<lambda>a b. cmp a b \<le> 0) ys"
  shows "sorted_wrt (\<lambda>a b. cmp a b \<le> 0) (insertBy cmp x ys)"
  using assms(3-5)
proof (induction ys)
  case Nil
  then show ?case by simp
next
  case (Cons y ys)
  show ?case
  proof (cases "cmp x y \<le> 0")
    case True
    have "cmp x z \<le> 0" if "z \<in> set ys" for z
    proof -
      from Cons.prems that have "cmp y z \<le> 0" by simp
      with True trans [of x y z] Cons.prems that show ?thesis by auto
    qed
    with True Cons.prems show ?thesis by auto
  next
    case False
    with total [of x y] Cons.prems have "cmp y x \<le> 0" by auto
    with False Cons show ?thesis by auto
  qed
qed

lemma sorted_sortBy:
  assumes total: "\<And>a b. a \<in> S \<Longrightarrow> b \<in> S \<Longrightarrow> cmp a b \<le> 0 \<or> cmp b a \<le> 0"
    and trans: "\<And>a b c. a \<in> S \<Longrightarrow> b \<in> S \<Longrightarrow> c \<in> S \<Longrightarrow>
                  cmp a b \<le> 0 \<Longrightarrow> cmp b c \<le> 0 \<Longrightarrow> cmp a c \<le> 0"
    and "set xs \<subseteq> S"
  shows "sorted_wrt (\<lambda>a b. cmp a b \<le> 0) (sortBy cmp xs)"
  using assms(3)
proof (induction xs)
  case Nil
  then show ?case by simp
next
  case (Cons x xs)
  then have ih: "sorted_wrt (\<lambda>a b. cmp a b \<le> 0) (sortBy cmp xs)" by simp
  show ?case unfolding sortBy.simps
  proof (rule sorted_insertBy [where S = S])
    show "cmp a b \<le> 0 \<or> cmp b a \<le> 0" if "a \<in> S" "b \<in> S" for a b
      using that by (rule total)
    show "cmp a c \<le> 0" if "a \<in> S" "b \<in> S" "c \<in> S" "cmp a b \<le> 0" "cmp b c \<le> 0" for a b c
      using that by (rule trans)
    show "x \<in> S" using Cons.prems by simp
    show "set (sortBy cmp xs) \<subseteq> S" using Cons.prems by simp
    show "sorted_wrt (\<lambda>a b. cmp a b \<le> 0) (sortBy cmp xs)" by (rule ih)
  qed
qed

lemma sorted_wrt_unique:
  assumes anti: "\<And>a b. a \<in> set xs \<Longrightarrow> b \<in> set xs \<Longrightarrow> R a b \<Longrightarrow> R b a \<Longrightarrow> a = b"
    and "sorted_wrt R xs" and "sorted_wrt R ys"
    and "distinct xs" and "distinct ys" and "set xs = set ys"
  shows "xs = ys"
  using assms
proof (induction xs arbitrary: ys)
  case Nil
  then show ?case by simp
next
  case (Cons x xs)
  then obtain y ys' where ys: "ys = y # ys'" by (cases ys) auto
  have xy: "x = y"
  proof (rule ccontr)
    assume ne: "x \<noteq> y"
    with Cons.prems(6) ys have m: "x \<in> set ys'" "y \<in> set xs" by auto
    with Cons.prems(2,3) ys have "R y x" and "R x y" by auto
    with Cons.prems(1) [of x y] m ne show False by auto
  qed
  with Cons.prems(4,5,6) ys have "set xs = set ys'" by auto
  with Cons.IH [of ys'] Cons.prems ys xy show ?case by auto
qed

section \<open>The search key is canonical\<close>

lemma sorted_entries_canonical:
  assumes d1: "distinct (map fst f1)" and d2: "distinct (map fst f2)"
    and same: "set (filter retained f1) = set (filter retained f2)"
    and ord: "ordersNames cmp (fst ` set (filter retained f1))"
  shows "sortBy (\<lambda>a b. cmp (fst a) (fst b)) (filter retained f1) =
         sortBy (\<lambda>a b. cmp (fst a) (fst b)) (filter retained f2)"
proof -
  let ?xs = "filter retained f1" and ?ys = "filter retained f2"
  let ?cmp = "\<lambda>a b. cmp (fst a) (fst b)"
  let ?R = "\<lambda>a b. ?cmp a b \<le> 0"
  have dx: "distinct (map fst ?xs)" and dy: "distinct (map fst ?ys)"
    using d1 d2 by (simp_all add: distinct_map_filter)
  have total: "?cmp a b \<le> 0 \<or> ?cmp b a \<le> 0" if "a \<in> set ?xs" "b \<in> set ?xs" for a b
    using ord that unfolding ordersNames_def by (meson imageI)
  have trans: "?cmp a c \<le> 0"
    if "a \<in> set ?xs" "b \<in> set ?xs" "c \<in> set ?xs" "?cmp a b \<le> 0" "?cmp b c \<le> 0" for a b c
    using ord that unfolding ordersNames_def by (meson imageI)
  have anti: "a = b" if "a \<in> set ?xs" "b \<in> set ?xs" "?R a b" "?R b a" for a b
  proof -
    from ord that have "fst a = fst b" unfolding ordersNames_def by (meson imageI)
    with dx that(1,2) show ?thesis by (meson distinct_map inj_onD)
  qed
  have sorted: "sorted_wrt ?R (sortBy ?cmp zs)" if sub: "set zs \<subseteq> set ?xs" for zs
  proof (rule sorted_sortBy [where S = "set ?xs"])
    show "?cmp a b \<le> 0 \<or> ?cmp b a \<le> 0" if "a \<in> set ?xs" "b \<in> set ?xs" for a b
      using that by (rule total)
    show "?cmp a c \<le> 0"
      if "a \<in> set ?xs" "b \<in> set ?xs" "c \<in> set ?xs" "?cmp a b \<le> 0" "?cmp b c \<le> 0" for a b c
      using that by (rule trans)
    show "set zs \<subseteq> set ?xs" by (rule sub)
  qed
  have sx: "sorted_wrt ?R (sortBy ?cmp ?xs)" by (rule sorted) simp
  have sy: "sorted_wrt ?R (sortBy ?cmp ?ys)" by (rule sorted) (simp only: same subset_refl)
  show ?thesis
  proof (rule sorted_wrt_unique [where R = ?R])
    show "a = b" if "a \<in> set (sortBy ?cmp ?xs)" "b \<in> set (sortBy ?cmp ?xs)" "?R a b" "?R b a" for a b
      using that anti by simp
    show "sorted_wrt ?R (sortBy ?cmp ?xs)" by (rule sx)
    show "sorted_wrt ?R (sortBy ?cmp ?ys)" by (rule sy)
    show "distinct (sortBy ?cmp ?xs)" using dx by (simp add: distinct_map)
    show "distinct (sortBy ?cmp ?ys)" using dy by (simp add: distinct_map)
    show "set (sortBy ?cmp ?xs) = set (sortBy ?cmp ?ys)" using same by simp
  qed
qed

text \<open>
  C5. Two query texts that are identical after lower-casing, trimming and
  collapsing runs of white space, with two filter objects (each name once)
  that hold the same entries once the null, undefined and empty-string values
  are dropped, in whatever order the entries were inserted, get the same key,
  character for character. The comparison of names is the collation of the
  host; it is required to order the names that are retained.
\<close>

theorem getSearchKey_canonical:
  assumes "normalizeQuery q1 = normalizeQuery q2"
    and "distinct (map fst f1)" and "distinct (map fst f2)"
    and "set (filter retained f1) = set (filter retained f2)"
    and "ordersNames cmp (fst ` set (filter retained f1))"
  shows "getSearchKeyWith cmp q1 f1 = getSearchKeyWith cmp q2 f2"
  using assms(1) sorted_entries_canonical [OF assms(2-5)]
  by (simp add: getSearchKeyWith_def)

theorem getSearchKey_canonical_witness:
  "getSearchKeyWith localeCompare ''Plumber  near ME ''
     [(''location'', JStr ''Austin''), (''category'', JNull), (''page'', JNum 1)] =
   getSearchKeyWith localeCompare ''plumber near me''
     [(''page'', JNum 1), (''price'', JStr []), (''location'', JStr ''Austin'')]"
proof -
  have 1: "normalizeQuery ''Plumber  near ME '' = normalizeQuery ''plumber near me''"
    by (simp add: normalizeQuery_def trim_def toLowerCase_def lowerChar_def isSpace_def)
  have 2: "distinct (map fst [(''location'', JStr ''Austin''), (''category'', JNull), (''page'', JNum 1)])"
    by simp
  have 3: "distinct (map fst [(''page'', JNum 1), (''price'', JStr []), (''location'', JStr ''Austin'')])"
    by simp
  have 4: "set (filter retained [(''location'', JStr ''Austin''), (''category'', JNull), (''page'', JNum 1)]) =
      set (filter retained [(''page'', JNum 1), (''price'', JStr []), (''location'', JStr ''Austin'')])"
    by (auto simp: retained_def)
  have 5: "ordersNames localeCompare
      (fst ` set (filter retained [(''location'', JStr ''Austin''), (''category'', JNull), (''page'', JNum 1)]))"
    by (simp add: retained_def ordersNames_def)
  from 1 2 3 4 5 show ?thesis by (rule getSearchKey_canonical)
qed

text \<open>
  With the comparison by character code the names are ordered whatever they
  are, so the key builder as it is used for concrete keys is canonical for
  all filter objects.
\<close>

lemma localeCompare_range: "localeCompare a b \<in> {- 1, 0, 1}"
  by (induction a b rule: localeCompare.induct) auto

lemma localeCompare_zero: "localeCompare a b = 0 \<Longrightarrow> a = b"
  by (induction a b rule: localeCompare.induct) (auto split: if_splits)

lemma localeCompare_flip: "localeCompare b a = - localeCompare a b"
  by (induction a b rule: localeCompare.induct) auto

lemma localeCompare_trans:
  "localeCompare a b \<le> 0 \<Longrightarrow> localeCompare b c \<le> 0 \<Longrightarrow> localeCompare a c \<le> 0"
proof (induction a b arbitrary: c rule: localeCompare.induct)
  case 1
  then show ?case by simp
next
  case (2 b bs)
  then show ?case by (cases c) simp_all
next
  case (3 a as)
  then show ?case by simp
next
  case (4 a as b bs)
  show ?case
  proof (cases c)
    case Nil
    with "4.prems" show ?thesis by simp
  next
    case (Cons d ds)
    let ?a = "of_char a :: nat" and ?b = "of_char b :: nat" and ?d = "of_char d :: nat"
    from "4.prems"(1) have ab: "?a \<le> ?b" by (simp split: if_splits)
    from "4.prems"(2) Cons have bd: "?b \<le> ?d" by (simp split: if_splits)
    show ?thesis
    proof (cases "?a < ?d")
      case True
      with Cons show ?thesis by simp
    next
      case False
      with ab bd have "?a = ?b \<and> ?b = ?d" by linarith
      then have eq: "a = b" "b = d" by simp_all
      with "4.prems" Cons have "localeCompare as bs \<le> 0" "localeCompare bs ds \<le> 0" by simp_all
      with "4.IH" eq have "localeCompare as ds \<le> 0" by simp
      with eq Cons show ?thesis by simp
    qed
  qed
qed


lemma ordersNames_localeCompare: "ordersNames localeCompare K"
  unfolding ordersNames_def
proof (intro conjI ballI impI)
  fix a b
  show "localeCompare a b \<le> 0 \<or> localeCompare b a \<le> 0"
    using localeCompare_flip [of b a] by linarith
  show "a = b" if "localeCompare a b \<le> 0 \<and> localeCompare b a \<le> 0"
  proof -
    from that localeCompare_flip [of b a] have "localeCompare a b = 0" by linarith
    then show ?thesis by (rule localeCompare_zero)
  qed
next
  fix a b c
  assume "localeCompare a b \<le> 0 \<and> localeCompare b c \<le> 0"
  then show "localeCompare a c \<le> 0" by (blast intro: localeCompare_trans)
qed

lemma getSearchKey_canonical_by_code:
  assumes "normalizeQuery q1 = normalizeQuery q2"
    and "distinct (map fst f1)" and "distinct (map fst f2)"
    and "set (filter retained f1) = set (filter retained f2)"
  shows "getSearchKey q1 f1 = getSearchKey q2 f2"
  using assms(1) sorted_entries_canonical [OF assms(2-4) ordersNames_localeCompare]
  by (simp add: getSearchKey_def getSearchKeyWith_def)

section \<open>Merging local and ingested services\<close>

lemma update_fresh: "k \<notin> fst ` set al \<Longrightarrow> AList.update k v al = al @ [(k, v)]"
  by (induction al) auto

lemma fold_update_distinct:
  "distinct (map s_id xs) \<Longrightarrow> s_id ` set xs \<inter> fst ` set m = {} \<Longrightarrow>
   fold (\<lambda>s m. AList.update (s_id s) s m) xs m = m @ map (\<lambda>s. (s_id s, s)) xs"
proof (induction xs arbitrary: m)
  case Nil
  then show ?case by simp
next
  case (Cons x xs)
  then have "s_id x \<notin> fst ` set m" by auto
  then have u: "AList.update (s_id x) x m = m @ [(s_id x, x)]" by (rule update_fresh)
  from Cons.prems have "s_id ` set xs \<inter> fst ` set (m @ [(s_id x, x)]) = {}" by auto
  with Cons.IH [of "m @ [(s_id x, x)]"] Cons.prems u show ?case by simp
qed

lemma addNew_alt:
  "addNew s m = (if s_id s \<in> fst ` set m then m else m @ [(s_id s, s)])"
  by (auto simp: addNew_def update_fresh map_of_eq_None_iff)

lemma addNew_keys: "fst ` set (addNew x m) = insert (s_id x) (fst ` set m)"
  by (auto simp: addNew_alt)

lemma distinct_fold_addNew:
  "distinct (map fst m) \<Longrightarrow> distinct (map fst (fold addNew xs m))"
proof (induction xs arbitrary: m)
  case Nil
  then show ?case by simp
next
  case (Cons x xs)
  from Cons.prems have "distinct (map fst (addNew x m))" by (auto simp: addNew_alt)
  then show ?case by (simp add: Cons.IH)
qed

lemma keys_fold_addNew:
  "fst ` set (fold addNew xs m) = fst ` set m \<union> s_id ` set xs"
  by (induction xs arbitrary: m) (simp_all add: addNew_keys)

lemma sub_fold_addNew: "set m \<subseteq> set (fold addNew xs m)"
proof (induction xs arbitrary: m)
  case Nil
  then show ?case by simp
next
  case (Cons x xs)
  have "set m \<subseteq> set (addNew x m)" by (auto simp: addNew_alt)
  with Cons.IH [of "addNew x m"] show ?case by auto
qed

lemma vals_fold_addNew: "snd ` set (fold addNew xs m) \<subseteq> snd ` set m \<union> set xs"
proof (induction xs arbitrary: m)
  case Nil
  then show ?case by simp
next
  case (Cons x xs)
  have "snd ` set (addNew x m) \<subseteq> insert x (snd ` set m)" by (auto simp: addNew_alt)
  with Cons.IH [of "addNew x m"] show ?case by auto
qed

lemma ids_fold_addNew:
  "\<forall>p\<in>set m. s_id (snd p) = fst p \<Longrightarrow> \<forall>p\<in>set (fold addNew xs m). s_id (snd p) = fst p"
proof (induction xs arbitrary: m)
  case Nil
  then show ?case by simp
next
  case (Cons x xs)
  from Cons.prems have "\<forall>p\<in>set (addNew x m). s_id (snd p) = fst p" by (auto simp: addNew_alt)
  then show ?case by (simp add: Cons.IH)
qed

lemma length_fold_addNew:
  "distinct (map s_id xs) \<Longrightarrow> s_id ` set xs \<inter> fst ` set m = {} \<Longrightarrow>
   length (fold addNew xs m) = length m + length xs"
proof (induction xs arbitrary: m)
  case Nil
  then show ?case by simp
next
  case (Cons x xs)
  from Cons.prems have fresh: "s_id x \<notin> fst ` set m" by auto
  then have l: "length (addNew x m) = Suc (length m)" by (simp add: addNew_alt)
  from Cons.prems have "s_id ` set xs \<inter> fst ` set (addNew x m) = {}"
    by (auto simp: addNew_keys)
  with Cons.IH [of "addNew x m"] Cons.prems l show ?case by simp
qed

lemma combinedServicesMap_addNew:
  "combinedServicesMap services newServices =
   fold addNew newServices (fold (\<lambda>s m. AList.update (s_id s) s m) services [])"
  by (simp add: combinedServicesMap_def addNew_def [abs_def])

lemma distinct_map_insertBy [simp]:
  "distinct (map f (insertBy cmp x xs)) = (f x \<notin> f ` set xs \<and> distinct (map f xs))"
  by (induction xs) auto

lemma distinct_map_sortBy [simp]: "distinct (map f (sortBy cmp xs)) = distinct (map f xs)"
  by (induction xs) auto

lemma slice_page:
  assumes "0 \<le> a" and "0 \<le> l"
  shows "slice a (a + l) xs = take (nat l) (drop (nat a) xs)"
proof -
  have i: "sliceIndex (length xs) a = min (nat a) (length xs)"
    "sliceIndex (length xs) (a + l) = min (nat a + nat l) (length xs)"
    using assms by (simp_all add: sliceIndex_def nat_add_distrib)
  have "take (min (nat a + nat l) (length xs) - min (nat a) (length xs))
          (drop (min (nat a) (length xs)) xs) = take (nat l) (drop (nat a) xs)"
  proof (cases "nat a \<le> length xs")
    case True
    have "p \<le> n \<Longrightarrow> min (p + q) n - p = min q (n - p)" for p q n :: nat by arith
    with True have "min (nat a + nat l) (length xs) - nat a = min (nat l) (length xs - nat a)"
      by blast
    moreover have "take (min (nat l) (length xs - nat a)) (drop (nat a) xs) =
        take (nat l) (drop (nat a) xs)"
      by (simp add: min_def)
    ultimately show ?thesis using True by (simp add: min_absorb1)
  next
    case False
    then show ?thesis by simp
  qed
  then show ?thesis by (simp add: slice_def Let_def i)
qed

lemma combinedServicesMap_props:
  assumes "distinct (map s_id services)"
  shows "distinct (map fst (combinedServicesMap services newServices))"
    and "map s_id (map snd (combinedServicesMap services newServices)) =
         map fst (combinedServicesMap services newServices)"
    and "fst ` set (combinedServicesMap services newServices) =
         s_id ` set services \<union> s_id ` set newServices"
    and "set services \<subseteq> snd ` set (combinedServicesMap services newServices)"
    and "snd ` set (combinedServicesMap services newServices) \<subseteq> set services \<union> set newServices"
    and "distinct (map s_id (services @ newServices)) \<Longrightarrow>
         length (combinedServicesMap services newServices) = length services + length newServices"
proof -
  let ?m0 = "map (\<lambda>s. (s_id s, s)) services"
  have m0: "fold (\<lambda>s m. AList.update (s_id s) s m) services [] = ?m0"
    using fold_update_distinct [OF assms, of "[]"] by simp
  have c: "combinedServicesMap services newServices = fold addNew newServices ?m0"
    by (simp add: combinedServicesMap_addNew m0)
  have d0: "distinct (map fst ?m0)" using assms by (simp add: o_def)
  have i0: "\<forall>p\<in>set ?m0. s_id (snd p) = fst p" by simp
  have k0: "fst ` set ?m0 = s_id ` set services" by force
  have v0: "snd ` set ?m0 = set services" by force
  show "distinct (map fst (combinedServicesMap services newServices))"
    unfolding c using d0 by (rule distinct_fold_addNew)
  show "map s_id (map snd (combinedServicesMap services newServices)) =
      map fst (combinedServicesMap services newServices)"
    unfolding c using ids_fold_addNew [OF i0, of newServices] by simp
  show "fst ` set (combinedServicesMap services newServices) =
      s_id ` set services \<union> s_id ` set newServices"
    unfolding c by (simp add: keys_fold_addNew image_image)
  show "set services \<subseteq> snd ` set (combinedServicesMap services newServices)"
    unfolding c using sub_fold_addNew [of ?m0 newServices] v0 by blast
  show "snd ` set (combinedServicesMap services newServices) \<subseteq> set services \<union> set newServices"
    unfolding c using vals_fold_addNew [of newServices ?m0] v0 by simp
  show "length (combinedServicesMap services newServices) = length services + length newServices"
    if "distinct (map s_id (services @ newServices))"
  proof -
    from that have "distinct (map s_id newServices)" "s_id ` set newServices \<inter> fst ` set ?m0 = {}"
      unfolding k0 by auto
    then show ?thesis unfolding c by (simp add: length_fold_addNew)
  qed
qed

lemma find_append_first:
  "find P (xs @ ys) = (case find P xs of None \<Rightarrow> find P ys | Some x \<Rightarrow> Some x)"
  by (induction xs) auto

lemma find_None_ids: "s_id x \<notin> s_id ` set xs \<Longrightarrow> find (\<lambda>y. s_id y = s_id x) xs = None"
  by (induction xs) auto

lemma find_self_distinct:
  "distinct (map s_id xs) \<Longrightarrow> s \<in> set xs \<Longrightarrow> find (\<lambda>y. s_id y = s_id s) xs = Some s"
  by (induction xs) (auto simp: image_iff)

text \<open>
  Every entry of the Map holds the first record written under its identity,
  the records being taken in the order in which the loops meet them.
\<close>

lemma first_fold_addNew:
  assumes "\<forall>p\<in>set m. find (\<lambda>y. s_id y = fst p) seen = Some (snd p)"
    and "fst ` set m = s_id ` set seen"
  shows "\<forall>p\<in>set (fold addNew xs m). find (\<lambda>y. s_id y = fst p) (seen @ xs) = Some (snd p)"
  using assms
proof (induction xs arbitrary: m seen)
  case Nil
  then show ?case by simp
next
  case (Cons x xs)
  have 1: "\<forall>p\<in>set (addNew x m). find (\<lambda>y. s_id y = fst p) (seen @ [x]) = Some (snd p)"
  proof
    fix p assume p: "p \<in> set (addNew x m)"
    show "find (\<lambda>y. s_id y = fst p) (seen @ [x]) = Some (snd p)"
    proof (cases "p \<in> set m")
      case True
      with Cons.prems(1) show ?thesis by (simp add: find_append_first)
    next
      case False
      with p have fresh: "s_id x \<notin> fst ` set m" and px: "p = (s_id x, x)"
        by (auto simp: addNew_alt split: if_splits)
      from fresh Cons.prems(2) have "find (\<lambda>y. s_id y = s_id x) seen = None"
        by (simp add: find_None_ids)
      with px show ?thesis by (simp add: find_append_first)
    qed
  qed
  have 2: "fst ` set (addNew x m) = s_id ` set (seen @ [x])"
    using Cons.prems(2) by (simp add: addNew_keys)
  from Cons.IH [OF 1 2] show ?case by simp
qed

lemma combinedServicesMap_first:
  assumes "distinct (map s_id services)"
  shows "\<forall>p\<in>set (combinedServicesMap services newServices).
           find (\<lambda>y. s_id y = fst p) (services @ newServices) = Some (snd p)"
proof -
  let ?m0 = "map (\<lambda>s. (s_id s, s)) services"
  have m0: "fold (\<lambda>s m. AList.update (s_id s) s m) services [] = ?m0"
    using fold_update_distinct [OF assms, of "[]"] by simp
  have a: "\<forall>p\<in>set ?m0. find (\<lambda>y. s_id y = fst p) services = Some (snd p)"
    using assms by (auto simp: find_self_distinct)
  have b: "fst ` set ?m0 = s_id ` set services" by force
  from first_fold_addNew [OF a b, of newServices] show ?thesis
    by (simp add: combinedServicesMap_addNew m0)
qed

lemma sorted_by_relevance:
  "sorted_wrt (\<lambda>a b. s_relevance b \<le> s_relevance a) (sortBy compareServices xs)"
proof -
  have "sorted_wrt (\<lambda>a b. compareServices a b \<le> 0) (sortBy compareServices xs)"
  proof (rule sorted_sortBy [where S = UNIV])
    show "compareServices a b \<le> 0 \<or> compareServices b a \<le> 0" for a b
      by (simp add: compareServices_def) linarith
    show "compareServices a c \<le> 0"
      if "compareServices a b \<le> 0" "compareServices b c \<le> 0" for a b c
      using that by (simp add: compareServices_def)
    show "set xs \<subseteq> UNIV" by simp
  qed
  then show ?thesis by (simp add: compareServices_def)
qed

text \<open>
  C7, amended. On the remote-fallback path with a non-empty remote answer,
  where the local page holds each record once: the merged set is the union of
  the local and the ingested records keyed by identity, and on a duplicate
  identity the first write wins, the local records being written first and
  the ingested ones after them in order; the merged list is sorted by
  relevance descending; the answer is the slice of the merged list for the
  requested page and limit, redacted, and the reported total is the length of
  the merged list, which is the sum of both numbers when all identities
  differ: 7 for 2 local and 5 newly ingested records.
\<close>

theorem search_merged_result_set:
  assumes "validate (body req) = Inr v"
    and "fst (cacheGet (now e) (searchCacheKey v) (cache w)) = None"
    and "findServices e (searchQuery v (user req)) = Inr (services, n)"
    and "length services < 5" and "n < 10"
    and "customSearch (maxRetries e) (transport e) = Inr py"
    and "py_success py" and "py_results py \<noteq> []"
    and "distinct (map s_id services)"
    and "newServices = ingest e (v_category v) 0 (py_results py)"
    and "merged = combinedServices services newServices"
  shows "fst (search e req w) =
           Paginated
             (map transform
               (take (nat (v_limit v)) (drop (nat ((v_page v - 1) * v_limit v)) merged)))
             (v_page v) (v_limit v) (length merged)
             ''Resultados de busqueda obtenidos correctamente (combinados)'' \<and>
         distinct (map s_id merged) \<and>
         s_id ` set merged = s_id ` set services \<union> s_id ` set newServices \<and>
         (\<forall>s\<in>set merged.
            find (\<lambda>x. s_id x = s_id s) (services @ newServices) = Some s) \<and>
         set services \<subseteq> set merged \<and>
         sorted_wrt (\<lambda>a b. s_relevance b \<le> s_relevance a) merged \<and>
         (distinct (map s_id (services @ newServices)) \<longrightarrow>
            length merged = length services + length newServices)"
proof -
  note p = combinedServicesMap_props [OF assms(9), of newServices]
  let ?m = "combinedServicesMap services newServices"
  let ?u = "map snd ?m"
  have m: "merged = sortBy compareServices ?u" by (simp add: assms(11) combinedServices_def)
  from validate_bounds [OF assms(1)] have b: "0 \<le> (v_page v - 1) * v_limit v" "0 \<le> v_limit v"
    by simp_all
  have r: "fst (search e req w) =
      Paginated
        (map transform (take (nat (v_limit v)) (drop (nat ((v_page v - 1) * v_limit v)) merged)))
        (v_page v) (v_limit v) (length merged)
        ''Resultados de busqueda obtenidos correctamente (combinados)''"
    unfolding search_remote_merged [OF assms(1-8)]
    by (simp add: slice_page [OF b] assms(10,11))
  have d: "distinct (map s_id merged)" unfolding m distinct_map_sortBy p(2) by (rule p(1))
  have k: "s_id ` set merged = s_id ` set services \<union> s_id ` set newServices"
  proof -
    have "s_id ` set merged = set (map s_id ?u)" unfolding m by (simp add: image_image)
    also have "\<dots> = fst ` set ?m" unfolding p(2) by simp
    finally show ?thesis by (simp add: p(3))
  qed
  have f: "\<forall>s\<in>set merged. find (\<lambda>x. s_id x = s_id s) (services @ newServices) = Some s"
  proof
    fix s assume "s \<in> set merged"
    then obtain q where q: "q \<in> set ?m" "snd q = s" unfolding m by auto
    from p(2) have "map (\<lambda>x. s_id (snd x)) ?m = map fst ?m" by (simp add: o_def)
    with q(1) have "s_id (snd q) = fst q" by (meson map_eq_conv)
    with combinedServicesMap_first [OF assms(9), of newServices] q
    show "find (\<lambda>x. s_id x = s_id s) (services @ newServices) = Some s" by auto
  qed
  have s1: "set services \<subseteq> set merged" unfolding m using p(4) by simp
  have so: "sorted_wrt (\<lambda>a b. s_relevance b \<le> s_relevance a) merged"
    unfolding m by (rule sorted_by_relevance)
  have l: "length merged = length services + length newServices"
    if "distinct (map s_id (services @ newServices))"
    unfolding m using p(6) [OF that] by simp
  from r d k f s1 so l show ?thesis by blast
qed

lemma validate_categoryBody: "validate categoryBody = Inr categoryValue"
  by (simp add: validate_def categoryBody_def categoryValue_def plumberBody_def plumberValue_def
      stringOrEmpty_def priceOk_def)

lemma customSearch_fiveRemote:
  "customSearch (maxRetries mergeEnv) (transport mergeEnv) =
     Inr \<lparr>py_success = True, py_results = fiveRemote\<rparr>"
  by (simp add: mergeEnv_def quietEnv_def customSearch_def apiClient.simps)

lemma merged_fiveRemote:
  "map (\<lambda>s. (s_id s, s_relevance s, s_rating s))
     (combinedServices twoLocal (ingest mergeEnv (JStr plumbing) 0 fiveRemote)) =
     [(''new0'', 90, 2), (''new3'', 80, 1), (''b'', 70, 3), (''new1'', 60, 5),
      (''a'', 50, 4), (''new2'', 50, 5), (''new4'', 10, 3)]"
  by code_simp

text \<open>
  Without a category in the request no candidate can be saved: the schema
  requires one.
\<close>

lemma nothing_ingested_without_category:
  "ingest mergeEnv JUndefined 0 fiveRemote = []"
  by code_simp

lemma s_id_transform [simp]: "s_id (transform s) = s_id s"
  by (simp add: transform_def)

theorem search_merged_result_set_witness:
  "map s_id (responseData (fst (search mergeEnv
      \<lparr>body = categoryBody, user = Some alice\<rparr> aliceWorld))) =
     [''new0'', ''new3'', ''b'', ''new1'', ''a'', ''new2'', ''new4''] \<and>
   responseTotal (fst (search mergeEnv
      \<lparr>body = categoryBody, user = Some alice\<rparr> aliceWorld)) = 7"
proof -
  let ?req = "\<lparr>body = categoryBody, user = Some alice\<rparr>"
  let ?v = "categoryValue"
  let ?new = "ingest mergeEnv (JStr plumbing) 0 fiveRemote"
  let ?merged = "combinedServices twoLocal ?new"
  have 1: "validate (body ?req) = Inr ?v" by (simp add: validate_categoryBody)
  have 2: "fst (cacheGet (now mergeEnv) (searchCacheKey ?v) (cache aliceWorld)) = None"
    by (simp add: aliceWorld_def emptyWorld_def cacheGet_emptyCache)
  have 3: "findServices mergeEnv (searchQuery ?v (user ?req)) = Inr (twoLocal, 2)"
    by (simp add: mergeEnv_def quietEnv_def)
  have 4: "length twoLocal < 5" by (simp add: twoLocal_def)
  have 5: "(2::nat) < 10" by simp
  have 6: "customSearch (maxRetries mergeEnv) (transport mergeEnv) =
      Inr \<lparr>py_success = True, py_results = fiveRemote\<rparr>"
    by (rule customSearch_fiveRemote)
  have 7: "py_success \<lparr>py_success = True, py_results = fiveRemote\<rparr>" by simp
  have 8: "py_results \<lparr>py_success = True, py_results = fiveRemote\<rparr> \<noteq> []"
    by (simp add: fiveRemote_def)
  have 9: "distinct (map s_id twoLocal)" by (simp add: twoLocal_def mkService_def)
  have c: "v_category ?v = JStr plumbing" "v_page ?v = 1" "v_limit ?v = 20"
    by (simp_all add: categoryValue_def plumberValue_def)
  have 10: "?new = ingest mergeEnv (v_category ?v) 0
      (py_results \<lparr>py_success = True, py_results = fiveRemote\<rparr>)" by (simp add: c)
  from search_merged_result_set [OF 1 2 3 4 5 6 7 8 9 10 refl]
  have r: "fst (search mergeEnv ?req aliceWorld) =
      Paginated (map transform (take (nat (v_limit ?v)) (drop (nat ((v_page ?v - 1) * v_limit ?v)) ?merged)))
        (v_page ?v) (v_limit ?v) (length ?merged)
        ''Resultados de busqueda obtenidos correctamente (combinados)''"
    by (rule conjunct1)
  have i: "map s_id ?merged = [''new0'', ''new3'', ''b'', ''new1'', ''a'', ''new2'', ''new4'']"
    using arg_cong [OF merged_fiveRemote, of "map fst"] by (simp add: o_def)
  have l: "length ?merged = 7"
    using arg_cong [OF i, of length] by simp
  have "map s_id (responseData (fst (search mergeEnv ?req aliceWorld))) = map s_id ?merged"
    unfolding r by (simp add: responseData_def c l o_def)
  moreover have "responseTotal (fst (search mergeEnv ?req aliceWorld)) = 7"
    unfolding r by (simp add: responseTotal_def l)
  ultimately show ?thesis by (simp add: i)
qed

text \<open>
  C7, as the claim states it, fails on the merge of lines 202 to 226. Two
  records of equal relevance 50 stay in insertion order, rating 1 before
  rating 5: the tie is not broken by rating. And for an ingested record with
  the identity of a local one (the document as a later read returns it), the
  local record, written first, is the one kept: the last write does not win.
\<close>

theorem merged_order_and_identity_counterexample:
  "map (\<lambda>s. (s_id s, s_relevance s, s_rating s))
     (combinedServices [mkService ''a'' 50 1 False] [mkService ''b'' 50 5 False]) =
     [(''a'', 50, 1), (''b'', 50, 5)] \<and>
   combinedServices [mkService ''a'' 50 1 False] [mkService ''a'' 90 5 True] =
     [mkService ''a'' 50 1 False]"
  by (simp add: combinedServices_def combinedServicesMap_def mkService_def compareServices_def)

end
